theory Spec2Isabelle
  imports Complex_Main "HOL-Library.Multiset" "HOL-Library.Product_Lexorder"
begin

section \<open>Rice-price dashboard: the loading pipeline of \<open>main.py\<close>\<close>

text \<open>
  The development embeds the two functions of \<open>src/main.py\<close> that carry the data
  pipeline, \<open>clean_price\<close> and \<open>load_data\<close>. The rest of the file is Streamlit
  and Plotly presentation code, which only consumes what \<open>load_data\<close> returns.

  Python strings are \<open>string\<close> (a list of 8-bit characters): the model is of ASCII
  text. Python integers are unbounded and are \<open>int\<close>; the interpreter's configurable
  cap on the number of digits \<open>int(str)\<close> converts is not part of the model.
\<close>

subsection \<open>Cell values and Python's \<open>int()\<close>\<close>

text \<open>
  A float is kept by its exact value when finite (every finite float is a rational), and
  by its kind otherwise. Only \<open>int(x)\<close> is ever applied to it, which truncates a finite
  float towards zero, raises ValueError on NaN and OverflowError on an infinity.
\<close>

datatype pyfloat = Finite rat | NaN | PosInf | NegInf

text \<open>
  What a cell of a table read by \<open>pandas.read_excel\<close> or \<open>pandas.read_csv\<close> can hold:
  text, an integer, a boolean, a float (NaN for an empty cell), None, or an object with
  no integer conversion (a timestamp, a time of day), here \<open>CObject\<close>.
\<close>

datatype cell = CStr string | CInt int | CBool bool | CFloat pyfloat | CNone | CObject

datatype exc = ValueError | TypeError | OverflowError | KeyError

definition is_digit :: "char \<Rightarrow> bool" where
  "is_digit c = (let n = (of_char c :: nat) in 48 \<le> n \<and> n \<le> 57)"

definition digit_val :: "char \<Rightarrow> int" where
  "digit_val c = int (of_char c) - 48"

text \<open>
  The characters \<open>str.strip()\<close> removes and \<open>int()\<close> skips at both ends: tab, line
  feed, vertical tab, form feed, carriage return, the four separators 0x1C to 0x1F, and
  the space.
\<close>

definition is_space :: "char \<Rightarrow> bool" where
  "is_space c = (let n = (of_char c :: nat) in (9 \<le> n \<and> n \<le> 13) \<or> (28 \<le> n \<and> n \<le> 32))"

definition strip :: "string \<Rightarrow> string" where
  "strip s = rev (dropWhile is_space (rev (dropWhile is_space s)))"

text \<open>
  The digits of a decimal literal as \<open>int()\<close> reads them: digits, where a single
  underscore may stand between two digits. \<open>py_digits acc s\<close> continues a number whose
  value so far is \<open>acc\<close>; the string it is first called on starts with a digit.
\<close>

fun py_digits :: "int \<Rightarrow> string \<Rightarrow> int option" where
  "py_digits acc [] = Some acc"
| "py_digits acc [c] = (if is_digit c then Some (acc * 10 + digit_val c) else None)"
| "py_digits acc (c # d # r) =
     (if is_digit c then py_digits (acc * 10 + digit_val c) (d # r)
      else if c = CHR ''_'' \<and> is_digit d then py_digits acc (d # r)
      else None)"

definition py_unsigned :: "string \<Rightarrow> int option" where
  "py_unsigned s = (case s of [] \<Rightarrow> None | c # r \<Rightarrow> if is_digit c then py_digits 0 s else None)"

text \<open>\<open>int(s)\<close> for a string, base ten: surrounding whitespace, an optional sign, the digits.\<close>

definition int_of_str :: "string \<Rightarrow> int option" where
  "int_of_str s =
     (case strip s of
        [] \<Rightarrow> None
      | c # r \<Rightarrow>
          if c = CHR ''-'' then map_option uminus (py_unsigned r)
          else if c = CHR ''+'' then py_unsigned r
          else py_unsigned (c # r))"

definition trunc :: "rat \<Rightarrow> int" where
  "trunc q = (if 0 \<le> q then \<lfloor>q\<rfloor> else \<lceil>q\<rceil>)"

text \<open>\<open>int(x)\<close>: the value, or the exception it raises.\<close>

fun py_int :: "cell \<Rightarrow> exc + int" where
  "py_int (CStr s) = (case int_of_str s of Some n \<Rightarrow> Inr n | None \<Rightarrow> Inl ValueError)"
| "py_int (CInt n) = Inr n"
| "py_int (CBool b) = Inr (if b then 1 else 0)"
| "py_int (CFloat (Finite q)) = Inr (trunc q)"
| "py_int (CFloat NaN) = Inl ValueError"
| "py_int (CFloat PosInf) = Inl OverflowError"
| "py_int (CFloat NegInf) = Inl OverflowError"
| "py_int CNone = Inl TypeError"
| "py_int CObject = Inl TypeError"

subsection \<open>\<open>clean_price\<close>\<close>

text \<open>
  \<^verbatim>\<open>
  def clean_price(price):
      if isinstance(price, str):
          price = price.replace(',', '').strip()
          if price == '-' or price == '':
              return pd.NA
      try:
          return int(price)
      except (ValueError, TypeError):
          return pd.NA
  \<close>
  The result is \<open>Inr (Some n)\<close> for the integer \<open>n\<close>, \<open>Inr None\<close> for \<open>pd.NA\<close>, and
  \<open>Inl e\<close> when the exception \<open>e\<close> leaves the function: the handler catches ValueError
  and TypeError only.
\<close>

definition replace_comma :: "string \<Rightarrow> string" where
  "replace_comma s = filter (\<lambda>c. c \<noteq> CHR '','') s"

definition try_int :: "cell \<Rightarrow> exc + int option" where
  "try_int price =
     (case py_int price of
        Inr n \<Rightarrow> Inr (Some n)
      | Inl ValueError \<Rightarrow> Inr None
      | Inl TypeError \<Rightarrow> Inr None
      | Inl e \<Rightarrow> Inl e)"

definition clean_price :: "cell \<Rightarrow> exc + int option" where
  "clean_price price =
     (case price of
        CStr s \<Rightarrow>
          (let price' = strip (replace_comma s)
           in if price' = ''-'' \<or> price' = '''' then Inr None else try_int (CStr price'))
      | _ \<Rightarrow> try_int price)"

subsection \<open>Tables\<close>

text \<open>
  A DataFrame is kept the way pandas keeps it, by columns: the list of its columns in
  order, each with its label and its values from the first row to the last. A column
  label is kept by its text (\<open>str(label)\<close>).
\<close>

type_synonym 'a frame = "(string \<times> 'a list) list"

text \<open>\<open>df_wide\<close> once \<open>Provinsi\<close> is its index.\<close>

record 'a wide =
  index :: "cell list"
  cols :: "'a frame"

text \<open>
  A row of \<open>df_long\<close>. The type of \<open>Tanggal\<close> is the header text at first and a date
  after \<open>pd.to_datetime\<close>; the type of \<open>Harga\<close> is \<open>int option\<close> while the column may
  hold \<open>pd.NA\<close>, and \<open>int\<close> after \<open>astype(int)\<close>.
\<close>

record ('d, 'p) row =
  Provinsi :: cell
  Tanggal :: 'd
  Harga :: 'p

text \<open>A calendar date: year, month, day, ordered lexicographically.\<close>

type_synonym date = "int \<times> int \<times> int"

text \<open>
  \<open>df_wide.transpose()\<close>: the row labels are the date headers, the column labels the
  regions, and a row holds what was a column.
\<close>

record transposed =
  t_index :: "string list"
  t_columns :: "cell list"
  t_rows :: "int option list list"

subsection \<open>What the pipeline takes from outside\<close>

text \<open>
  Reading the upload is pandas' work on bytes: an uploaded file is given by what
  \<open>pd.read_excel\<close> makes of it and by what \<open>pd.read_csv\<close> makes of it after the rewind,
  \<open>None\<close> standing for an exception.
\<close>

datatype uploaded = File (as_excel: "cell frame option") (as_csv: "cell frame option")

text \<open>
  Three things of pandas are parameters of the model: which dates a Timestamp can hold,
  \<open>pd.to_datetime\<close> without a format (\<open>None\<close> when it raises), and
  \<open>sort_values(by='Tanggal')\<close> with its default \<open>kind='quicksort'\<close>.
\<close>

record pandas =
  timestamp_in_bounds :: "date \<Rightarrow> bool"
  to_datetime_infer :: "string list \<Rightarrow> date list option"
  sort_values_Tanggal :: "(date, int) row list \<Rightarrow> (date, int) row list"

text \<open>The four \<open>st.error\<close> messages of \<open>load_data\<close>, and what it does to the outside.\<close>

datatype message = MsgNoFile | MsgReadFailed | MsgNoIdColumn | MsgDateFormat

datatype event = ReadExcel | Seek0 | ReadCsv | StError message

text \<open>A stage of the pipeline: it goes on, reports and returns None, or raises.\<close>

datatype 'a step = Ok 'a | Stop message | Raise exc

subsection \<open>The pandas operations \<open>load_data\<close> calls\<close>

definition labels :: "'a frame \<Rightarrow> string list" where
  "labels df = map fst df"

definition rename :: "string \<Rightarrow> string \<Rightarrow> 'a frame \<Rightarrow> 'a frame" where
  "rename old new df = map (\<lambda>(l, c). (if l = old then new else l, c)) df"

definition drop_columns :: "string \<Rightarrow> 'a frame \<Rightarrow> 'a frame" where
  "drop_columns l df = filter (\<lambda>(l', c). l' \<noteq> l) df"

text \<open>\<open>pd.isna\<close> on a cell: None and NaN.\<close>

definition isna :: "cell \<Rightarrow> bool" where
  "isna c = (c = CNone \<or> c = CFloat NaN)"

text \<open>Boolean-mask selection of rows, on one column.\<close>

definition keep_rows :: "bool list \<Rightarrow> 'a list \<Rightarrow> 'a list" where
  "keep_rows keep xs = map snd (filter fst (zip keep xs))"

text \<open>\<open>df.dropna(subset=[l])\<close>; KeyError when no column has the label.\<close>

definition dropna_subset :: "string \<Rightarrow> cell frame \<Rightarrow> exc + cell frame" where
  "dropna_subset l df =
     (case map_of df l of
        None \<Rightarrow> Inl KeyError
      | Some col \<Rightarrow>
          (let keep = map (\<lambda>c. \<not> isna c) col
           in Inr (map (\<lambda>(l', c). (l', keep_rows keep c)) df)))"

text \<open>\<open>df.set_index(l)\<close>; KeyError when no column has the label.\<close>

definition set_index :: "string \<Rightarrow> cell frame \<Rightarrow> exc + cell wide" where
  "set_index l df =
     (case map_of df l of
        None \<Rightarrow> Inl KeyError
      | Some col \<Rightarrow> Inr \<lparr>index = col, cols = drop_columns l df\<rparr>)"

text \<open>
  \<open>Series.apply\<close>: the function is called on the values in order, and the first exception
  ends the call.
\<close>

fun apply_series :: "('a \<Rightarrow> exc + 'b) \<Rightarrow> 'a list \<Rightarrow> exc + 'b list" where
  "apply_series f [] = Inr []"
| "apply_series f (x # xs) =
     (case f x of
        Inl e \<Rightarrow> Inl e
      | Inr y \<Rightarrow> (case apply_series f xs of Inl e \<Rightarrow> Inl e | Inr ys \<Rightarrow> Inr (y # ys)))"

text \<open>
  \<^verbatim>\<open>
  for col in df_wide.columns:
      df_wide[col] = df_wide[col].apply(clean_price)
  \<close>
\<close>

fun clean_columns :: "cell frame \<Rightarrow> exc + int option frame" where
  "clean_columns [] = Inr []"
| "clean_columns ((l, c) # df) =
     (case apply_series clean_price c of
        Inl e \<Rightarrow> Inl e
      | Inr c' \<Rightarrow> (case clean_columns df of Inl e \<Rightarrow> Inl e | Inr df' \<Rightarrow> Inr ((l, c') # df')))"

text \<open>\<open>df_wide.columns.astype(str).str.strip()\<close>\<close>

definition strip_labels :: "'a frame \<Rightarrow> 'a frame" where
  "strip_labels df = map (\<lambda>(l, c). (strip l, c)) df"

text \<open>
  \<open>df.dropna(how='all')\<close>: a row stays when it counts at least one value that is not NA.
  \<open>notna_any n df\<close> is that mask for a frame of \<open>n\<close> rows.
\<close>

definition notna_any :: "nat \<Rightarrow> int option frame \<Rightarrow> bool list" where
  "notna_any n df =
     foldr (\<lambda>(l, c) keep. map2 (\<or>) (map (\<lambda>p. p \<noteq> None) c) keep) df (replicate n False)"

definition dropna_all :: "int option wide \<Rightarrow> int option wide" where
  "dropna_all w =
     (let keep = notna_any (length (index w)) (cols w)
      in \<lparr>index = keep_rows keep (index w),
          cols = map (\<lambda>(l, c). (l, keep_rows keep c)) (cols w)\<rparr>)"

text \<open>
  \<open>df_wide.reset_index().melt(id_vars='Provinsi', var_name='Tanggal', value_name='Harga')\<close>:
  the value columns one after the other, each with all the rows.
\<close>

definition melt :: "'p wide \<Rightarrow> (string, 'p) row list" where
  "melt w =
     concat (map (\<lambda>(l, c). map (\<lambda>(r, p). \<lparr>Provinsi = r, Tanggal = l, Harga = p\<rparr>)
                                 (zip (index w) c))
                 (cols w))"

text \<open>\<open>df_long['Tanggal'].str.replace(' ', '')\<close>\<close>

definition remove_spaces :: "string \<Rightarrow> string" where
  "remove_spaces s = filter (\<lambda>c. c \<noteq> CHR '' '') s"

definition replace_spaces :: "(string, 'p) row list \<Rightarrow> (string, 'p) row list" where
  "replace_spaces long =
     map (\<lambda>r. \<lparr>Provinsi = Provinsi r, Tanggal = remove_spaces (Tanggal r), Harga = Harga r\<rparr>) long"

subsection \<open>Dates: \<open>pd.to_datetime(..., format='%d/%m/%Y')\<close> and the fallback\<close>

fun split_on :: "char \<Rightarrow> string \<Rightarrow> string list" where
  "split_on sep [] = [[]]"
| "split_on sep (c # s) =
     (if c = sep then [] # split_on sep s
      else (case split_on sep s of [] \<Rightarrow> [[c]] | p # ps \<Rightarrow> (c # p) # ps))"

definition two_digits :: "char \<Rightarrow> char \<Rightarrow> int" where
  "two_digits a b = 10 * digit_val a + digit_val b"

text \<open>
  The fields as strptime's patterns read them: \<open>%d\<close> is
  \<^verbatim>\<open>3[0-1]|[1-2]\d|0[1-9]|[1-9]| [1-9]\<close>, \<open>%m\<close> is \<^verbatim>\<open>1[0-2]|0[1-9]|[1-9]\<close> and \<open>%Y\<close> is
  \<^verbatim>\<open>\d\d\d\d\<close>.
\<close>

definition day_field :: "string \<Rightarrow> int option" where
  "day_field s =
     (case s of
        [a] \<Rightarrow> if is_digit a \<and> a \<noteq> CHR ''0'' then Some (digit_val a) else None
      | [a, b] \<Rightarrow>
          if a = CHR '' '' \<and> is_digit b \<and> b \<noteq> CHR ''0'' then Some (digit_val b)
          else if is_digit a \<and> is_digit b \<and> 1 \<le> two_digits a b \<and> two_digits a b \<le> 31
          then Some (two_digits a b) else None
      | _ \<Rightarrow> None)"

definition month_field :: "string \<Rightarrow> int option" where
  "month_field s =
     (case s of
        [a] \<Rightarrow> if is_digit a \<and> a \<noteq> CHR ''0'' then Some (digit_val a) else None
      | [a, b] \<Rightarrow>
          if is_digit a \<and> is_digit b \<and> 1 \<le> two_digits a b \<and> two_digits a b \<le> 12
          then Some (two_digits a b) else None
      | _ \<Rightarrow> None)"

definition year_field :: "string \<Rightarrow> int option" where
  "year_field s =
     (case s of
        [a, b, c, d] \<Rightarrow>
          if is_digit a \<and> is_digit b \<and> is_digit c \<and> is_digit d
          then Some (100 * two_digits a b + two_digits c d) else None
      | _ \<Rightarrow> None)"

definition is_leap :: "int \<Rightarrow> bool" where
  "is_leap y = (y mod 4 = 0 \<and> (y mod 100 \<noteq> 0 \<or> y mod 400 = 0))"

definition days_in_month :: "int \<Rightarrow> int \<Rightarrow> int" where
  "days_in_month y m =
     (if m = 2 then (if is_leap y then 29 else 28)
      else if m = 4 \<or> m = 6 \<or> m = 9 \<or> m = 11 then 30 else 31)"

definition valid_date :: "date \<Rightarrow> bool" where
  "valid_date dt =
     (case dt of (y, m, d) \<Rightarrow>
        1 \<le> y \<and> y \<le> 9999 \<and> 1 \<le> m \<and> m \<le> 12 \<and> 1 \<le> d \<and> d \<le> days_in_month y m)"

text \<open>One value under the format \<open>%d/%m/%Y\<close>, the whole text matched; \<open>None\<close> is ValueError.\<close>

definition strptime_dmY :: "string \<Rightarrow> date option" where
  "strptime_dmY s =
     (case split_on (CHR ''/'') s of
        [ds, ms, ys] \<Rightarrow>
          (case day_field ds of
             None \<Rightarrow> None
           | Some d \<Rightarrow>
               (case month_field ms of
                  None \<Rightarrow> None
                | Some m \<Rightarrow>
                    (case year_field ys of
                       None \<Rightarrow> None
                     | Some y \<Rightarrow> if valid_date (y, m, d) then Some (y, m, d) else None)))
      | _ \<Rightarrow> None)"

text \<open>
  The column under the primary format: a value that does not match, or a date no
  Timestamp holds (OutOfBoundsDatetime is a ValueError), makes the call raise.
\<close>

definition to_datetime_dmY :: "pandas \<Rightarrow> string list \<Rightarrow> date list option" where
  "to_datetime_dmY lib col =
     those (map (\<lambda>s. case strptime_dmY s of
                        None \<Rightarrow> None
                      | Some d \<Rightarrow> if timestamp_in_bounds lib d then Some d else None) col)"

text \<open>
  \<^verbatim>\<open>
  try:
     df_long['Tanggal'] = pd.to_datetime(df_long['Tanggal'], format='%d/%m/%Y')
  except ValueError:
      try:
          df_long['Tanggal'] = pd.to_datetime(df_long['Tanggal'])
      except Exception as e_date:
          st.error(...); return None
  \<close>
  \<open>None\<close> is the inner handler.
\<close>

definition parse_dates :: "pandas \<Rightarrow> string list \<Rightarrow> date list option" where
  "parse_dates lib col =
     (case to_datetime_dmY lib col of
        Some ds \<Rightarrow> Some ds
      | None \<Rightarrow> to_datetime_infer lib col)"

definition set_Tanggal :: "('a, 'p) row list \<Rightarrow> 'd list \<Rightarrow> ('d, 'p) row list" where
  "set_Tanggal long ds =
     map (\<lambda>(r, d). \<lparr>Provinsi = Provinsi r, Tanggal = d, Harga = Harga r\<rparr>) (zip long ds)"

subsection \<open>The last steps\<close>

text \<open>\<open>df_long.dropna(subset=['Harga'])\<close>\<close>

definition dropna_Harga :: "('d, int option) row list \<Rightarrow> ('d, int option) row list" where
  "dropna_Harga long = filter (\<lambda>r. Harga r \<noteq> None) long"

text \<open>
  \<open>astype(int)\<close> on one value of the column: \<open>pd.NA\<close> has no integer conversion
  (TypeError), and a Python integer outside 64 bits does not fit the column
  (OverflowError).
\<close>

definition int64 :: "('d, int option) row \<Rightarrow> exc + ('d, int) row" where
  "int64 r =
     (case Harga r of
        None \<Rightarrow> Inl TypeError
      | Some n \<Rightarrow>
          if - (2 ^ 63) \<le> n \<and> n < 2 ^ 63
          then Inr \<lparr>Provinsi = Provinsi r, Tanggal = Tanggal r, Harga = n\<rparr>
          else Inl OverflowError)"

definition astype_int :: "('d, int option) row list \<Rightarrow> exc + ('d, int) row list" where
  "astype_int long = apply_series int64 long"

definition transpose_wide :: "int option wide \<Rightarrow> transposed" where
  "transpose_wide w =
     \<lparr>t_index = labels (cols w), t_columns = index w, t_rows = map snd (cols w)\<rparr>"

subsection \<open>\<open>load_data\<close>\<close>

text \<open>
  From the table read to the cleaned \<open>df_wide\<close> (source lines 41 to 63): the check and
  rename of the identifier column, the drop of \<open>No\<close>, the rows without a region, the
  index, \<open>clean_price\<close> on every column, the labels stripped, the empty rows dropped.
\<close>

definition clean_wide :: "cell frame \<Rightarrow> int option wide step" where
  "clean_wide df_wide =
     (if ''Komoditas (Rp)'' \<in> set (labels df_wide) then
        (let df1 = rename ''Komoditas (Rp)'' ''Provinsi'' df_wide;
             df2 = (if ''No'' \<in> set (labels df1) then drop_columns ''No'' df1 else df1)
         in case dropna_subset ''Provinsi'' df2 of
              Inl e \<Rightarrow> Raise e
            | Inr df3 \<Rightarrow>
                (case set_index ''Provinsi'' df3 of
                   Inl e \<Rightarrow> Raise e
                 | Inr w \<Rightarrow>
                     (case clean_columns (cols w) of
                        Inl e \<Rightarrow> Raise e
                      | Inr cs \<Rightarrow>
                          Ok (dropna_all \<lparr>index = index w, cols = strip_labels cs\<rparr>))))
      else Stop MsgNoIdColumn)"

text \<open>The melted table with its dates parsed (source lines 67 to 85).\<close>

definition dated_long :: "pandas \<Rightarrow> int option wide \<Rightarrow> (date, int option) row list option" where
  "dated_long lib w =
     (let df_long = replace_spaces (melt w)
      in map_option (set_Tanggal df_long) (parse_dates lib (map Tanggal df_long)))"

text \<open>The rows with a price, as integers, before they are sorted (source lines 88 to 91).\<close>

definition priced_long :: "(date, int option) row list \<Rightarrow> exc + (date, int) row list" where
  "priced_long df_long = astype_int (dropna_Harga df_long)"

definition transform :: "pandas \<Rightarrow> cell frame \<Rightarrow> ((date, int) row list \<times> transposed) step" where
  "transform lib df =
     (case clean_wide df of
        Stop m \<Rightarrow> Stop m
      | Raise e \<Rightarrow> Raise e
      | Ok w \<Rightarrow>
          (case dated_long lib w of
             None \<Rightarrow> Stop MsgDateFormat
           | Some dl \<Rightarrow>
               (case priced_long dl of
                  Inl e \<Rightarrow> Raise e
                | Inr pl \<Rightarrow> Ok (sort_values_Tanggal lib pl, transpose_wide w))))"

text \<open>Source lines 26 to 37: Excel first, then CSV after the rewind.\<close>

definition read_table :: "uploaded \<Rightarrow> event list \<times> cell frame option" where
  "read_table f =
     (case as_excel f of
        Some df \<Rightarrow> ([ReadExcel], Some df)
      | None \<Rightarrow> ([ReadExcel, Seek0, ReadCsv], as_csv f))"

text \<open>
  \<open>load_data\<close>: what it does to the outside, in order, and how it ends: \<open>Inl e\<close> when
  the exception \<open>e\<close> leaves it, \<open>Inr None\<close> when it returns None, \<open>Inr (Some (df_long,
  df_wide.transpose()))\<close> when it returns the two tables.
\<close>

definition load_data ::
  "pandas \<Rightarrow> uploaded option \<Rightarrow> event list \<times> (exc + ((date, int) row list \<times> transposed) option)" where
  "load_data lib uploaded_file =
     (case uploaded_file of
        None \<Rightarrow> ([StError MsgNoFile], Inr None)
      | Some f \<Rightarrow>
          (case read_table f of
             (ev, None) \<Rightarrow> (ev @ [StError MsgReadFailed], Inr None)
           | (ev, Some df_wide) \<Rightarrow>
               (case transform lib df_wide of
                  Stop m \<Rightarrow> (ev @ [StError m], Inr None)
                | Raise e \<Rightarrow> (ev, Inl e)
                | Ok res \<Rightarrow> (ev, Inr (Some res)))))"

subsection \<open>What is assumed of pandas, and of the table read\<close>

text \<open>
  The contract of the three parameters. Every pandas version holds the dates of the
  years 1678 to 2261 in a Timestamp; \<open>pd.to_datetime\<close> returns as many dates as it was
  given values; \<open>sort_values\<close> returns the rows it was given, ascending in the key. The
  documentation of \<open>sort_values\<close> promises no more of the default \<open>kind='quicksort'\<close>:
  only \<open>mergesort\<close> and \<open>stable\<close> keep the order of equal keys.
\<close>

definition pandas_ok :: "pandas \<Rightarrow> bool" where
  "pandas_ok lib =
     ((\<forall>y m d. 1678 \<le> y \<and> y \<le> 2261 \<and> valid_date (y, m, d) \<longrightarrow> timestamp_in_bounds lib (y, m, d))
      \<and> (\<forall>col ds. to_datetime_infer lib col = Some ds \<longrightarrow> length ds = length col)
      \<and> (\<forall>xs. sorted (map Tanggal (sort_values_Tanggal lib xs))
               \<and> mset (sort_values_Tanggal lib xs) = mset xs))"

text \<open>An ISO 8601 calendar date, \<open>YYYY-MM-DD\<close>.\<close>

definition iso_date :: "string \<Rightarrow> date option" where
  "iso_date s =
     (case split_on (CHR ''-'') s of
        [ys, [a, b], [c, d]] \<Rightarrow>
          (case year_field ys of
             None \<Rightarrow> None
           | Some y \<Rightarrow>
               if is_digit a \<and> is_digit b \<and> is_digit c \<and> is_digit d
                  \<and> valid_date (y, two_digits a b, two_digits c d)
               then Some (y, two_digits a b, two_digits c d) else None)
      | _ \<Rightarrow> None)"

text \<open>
  \<open>pd.to_datetime\<close> without a format reads a column of ISO dates that Timestamps hold as
  those dates.
\<close>

definition infers_iso :: "pandas \<Rightarrow> bool" where
  "infers_iso lib =
     (\<forall>col. list_all (\<lambda>s. case iso_date s of None \<Rightarrow> False
                                           | Some d \<Rightarrow> timestamp_in_bounds lib d) col
        \<longrightarrow> to_datetime_infer lib col = those (map iso_date col))"

text \<open>
  The tables the model follows pandas on. A table read from a file has distinct column
  labels and columns of one length. The labels must not collide with the names
  \<open>load_data\<close> itself introduces (\<open>Provinsi\<close>, and \<open>Harga\<close> as the value name of \<open>melt\<close>),
  also once they are stripped, and a date header must not be one of the texts pandas
  reads as a missing date (the empty text, \<open>NaT\<close>, \<open>nan\<close> and their spellings).
\<close>

definition nat_strings :: "string list" where
  "nat_strings = [[], ''NaT'', ''nat'', ''NAT'', ''nan'', ''NaN'', ''NAN'']"

definition date_headers :: "cell frame \<Rightarrow> string list" where
  "date_headers df =
     map strip (filter (\<lambda>l. l \<noteq> ''Komoditas (Rp)'' \<and> l \<noteq> ''No'') (labels df))"

definition well_formed :: "cell frame \<Rightarrow> bool" where
  "well_formed df =
     (distinct (labels df)
      \<and> list_all (\<lambda>c. list_all (\<lambda>c'. length c = length c') (map snd df)) (map snd df)
      \<and> ''Provinsi'' \<notin> set (labels df)
      \<and> distinct (date_headers df)
      \<and> list_all (\<lambda>l. l \<noteq> ''Provinsi'' \<and> l \<noteq> ''Harga''
                         \<and> remove_spaces l \<notin> set nat_strings) (date_headers df))"

subsection \<open>The sort behind \<open>sort_values\<close>: numpy's \<open>quicksort\<close>\<close>

text \<open>
  \<open>df_long.sort_values(by='Tanggal')\<close> names no \<open>kind\<close>, so pandas sorts with
  \<open>kind='quicksort'\<close>: it takes the \<open>Tanggal\<close> values and calls numpy's \<open>argsort\<close> on them
  (\<open>nargsort\<close> in \<open>pandas/core/sorting.py\<close>), and returns the rows in the order of the
  indices found. On \<open>datetime64\<close> values that is \<open>aquicksort_\<close> of numpy's
  \<open>npysort/quicksort.cpp\<close>, an introsort: ranges of more than 17 elements are
  partitioned around the median of three, shorter ones are sorted by insertion, and a
  range taken from the stack below the depth limit goes to \<open>aheapsort_\<close>. What follows
  is that code on a list of rows with a key \<open>k\<close>; the index array of the C code, which is
  what the code swaps, is the list of rows here.
\<close>

text \<open>\<open>INTP_SWAP(a[i], a[j])\<close>.\<close>

definition intp_swap :: "nat \<Rightarrow> nat \<Rightarrow> 'a list \<Rightarrow> 'a list" where
  "intp_swap i j a = a[i := a ! j, j := a ! i]"

text \<open>
  The three conditional swaps that put the median of the first, the middle and the last
  element in the middle (\<open>pl\<close> is index 0, \<open>pr\<close> the last index, \<open>pm = pl + ((pr - pl) >> 1)\<close>).
\<close>

definition median3 :: "('a \<Rightarrow> 'k::linorder) \<Rightarrow> 'a list \<Rightarrow> 'a list" where
  "median3 k a =
     (let r = length a - 1; m = r div 2;
          a1 = (if k (a ! m) < k (a ! 0) then intp_swap m 0 a else a);
          a2 = (if k (a1 ! r) < k (a1 ! m) then intp_swap r m a1 else a1)
      in if k (a2 ! m) < k (a2 ! 0) then intp_swap m 0 a2 else a2)"

text \<open>
  \<open>do { ++pi; } while (v[*pi] < vp)\<close> and \<open>do { --pj; } while (vp < v[*pj])\<close>: the index
  each scan stops at.
\<close>

definition scan_up :: "('a \<Rightarrow> 'k::linorder) \<Rightarrow> 'k \<Rightarrow> 'a list \<Rightarrow> nat \<Rightarrow> nat" where
  "scan_up k vp a i = i + 1 + length (takeWhile (\<lambda>x. k x < vp) (drop (i + 1) a))"

definition scan_down :: "('a \<Rightarrow> 'k::linorder) \<Rightarrow> 'k \<Rightarrow> 'a list \<Rightarrow> nat \<Rightarrow> nat" where
  "scan_down k vp a j = j - 1 - length (takeWhile (\<lambda>x. vp < k x) (rev (take j a)))"

text \<open>
  The partition loop: scan up, scan down, stop when the scans have met, otherwise swap
  the two elements and go on. It returns the list and the index the upward scan stopped
  at.
\<close>

function hoare :: "('a \<Rightarrow> 'k::linorder) \<Rightarrow> 'k \<Rightarrow> 'a list \<Rightarrow> nat \<Rightarrow> nat \<Rightarrow> 'a list \<times> nat" where
  "hoare k vp a i j =
     (let i' = scan_up k vp a i; j' = scan_down k vp a j
      in if j' \<le> i' then (a, i') else hoare k vp (intp_swap i' j' a) i' j')"
  by pat_completeness auto
termination
  by (relation "measure (\<lambda>(k, vp, a, i, j). j - i)")
     (auto simp: scan_up_def scan_down_def)

text \<open>
  One pass of the \<open>while ((pr - pl) > SMALL_QUICKSORT)\<close> loop: median of three, the
  pivot moved to the last but one place, the partition loop from \<open>pi = pl\<close> and
  \<open>pj = pr - 1\<close>, the pivot moved to where the scans met. The result is the part before
  the pivot, the pivot, and the part after it.
\<close>

definition partition3 :: "('a \<Rightarrow> 'k::linorder) \<Rightarrow> 'a list \<Rightarrow> 'a list \<times> 'a \<times> 'a list" where
  "partition3 k a =
     (let r = length a - 1; m = r div 2;
          a3 = median3 k a;
          vp = k (a3 ! m);
          a4 = intp_swap m (r - 1) a3
      in case hoare k vp a4 0 (r - 1) of
           (a5, i) \<Rightarrow>
             (let a6 = intp_swap i (r - 1) a5
              in (take i a6, a6 ! i, drop (i + 1) a6)))"

text \<open>
  The insertion sort of a short range: each element moves back past the elements with
  a greater key, \<open>while (pj > pl && vp < v[*pk])\<close>.
\<close>

definition insert_back :: "('a \<Rightarrow> 'k::linorder) \<Rightarrow> 'a list \<Rightarrow> 'a \<Rightarrow> 'a list" where
  "insert_back k ys x =
     rev (dropWhile (\<lambda>y. k x < k y) (rev ys)) @ x # rev (takeWhile (\<lambda>y. k x < k y) (rev ys))"

definition insertion_sort :: "('a \<Rightarrow> 'k::linorder) \<Rightarrow> 'a list \<Rightarrow> 'a list" where
  "insertion_sort k a = foldl (insert_back k) [] a"

text \<open>
  \<open>aheapsort_\<close> of \<open>npysort/heapsort.cpp\<close>, with the indices counted from 0 (the C code
  counts from 1): the element at \<open>i\<close> sinks in the heap of the first \<open>n\<close> elements below
  its greater child while that child is greater; the heap is built from the middle
  down to the root; then, for \<open>n\<close> from the length down to 2, the root changes place
  with element \<open>n - 1\<close> and sinks in the first \<open>n - 1\<close> elements.
\<close>

function sift :: "('a \<Rightarrow> 'k::linorder) \<Rightarrow> 'a list \<Rightarrow> nat \<Rightarrow> nat \<Rightarrow> 'a list" where
  "sift k a i n =
     (let j = 2 * i + 1
      in if j < n then
           (let c = (if j + 1 < n \<and> k (a ! j) < k (a ! (j + 1)) then j + 1 else j)
            in if k (a ! i) < k (a ! c) then sift k (intp_swap i c a) c n else a)
         else a)"
  by pat_completeness auto
termination
  by (relation "measure (\<lambda>(k, a, i, n). n - i)") auto

definition heapify :: "('a \<Rightarrow> 'k::linorder) \<Rightarrow> 'a list \<Rightarrow> 'a list" where
  "heapify k a = foldl (\<lambda>b l. sift k b l (length a)) a (rev [0..<length a div 2])"

definition pop_max :: "('a \<Rightarrow> 'k::linorder) \<Rightarrow> 'a list \<Rightarrow> nat \<Rightarrow> 'a list" where
  "pop_max k b n = sift k (intp_swap 0 (n - 1) b) 0 (n - 1)"

definition heapsort :: "('a \<Rightarrow> 'k::linorder) \<Rightarrow> 'a list \<Rightarrow> 'a list" where
  "heapsort k a = foldl (pop_max k) (heapify k a) (rev [2..<length a + 1])"

text \<open>\<open>npy_get_msb\<close>: how often the number can be halved before it is 0 or 1.\<close>

function msb :: "nat \<Rightarrow> nat" where
  "msb n = (if n \<le> 1 then 0 else 1 + msb (n div 2))"
  by pat_completeness auto
termination
  by (relation "measure id") auto

declare hoare.simps [simp del] sift.simps [simp del] msb.simps [simp del]

text \<open>
  The outer loop with its stack, as a recursion on the range. \<open>d\<close> is \<open>cdepth\<close>, and
  \<open>popped\<close> says that the range comes from the stack (or is the whole array): only then
  does the code look at the depth, and a range with \<open>cdepth < 0\<close> goes to the heap sort.
  After a partition the longer part is pushed on the stack and the shorter one is
  carried on with, both with \<open>cdepth - 1\<close>. That every range gets shorter is proved
  with the properties of the partition, below.
\<close>

function qs :: "('a \<Rightarrow> 'k::linorder) \<Rightarrow> bool \<Rightarrow> int \<Rightarrow> 'a list \<Rightarrow> 'a list" where
  "qs k popped d a =
     (if popped \<and> d < 0 then heapsort k a
      else if 17 < length a then
        (case partition3 k a of
           (l, p, r) \<Rightarrow>
             if length l < length r then qs k False (d - 1) l @ p # qs k True (d - 1) r
             else qs k True (d - 1) l @ p # qs k False (d - 1) r)
      else insertion_sort k a)"
  by pat_completeness auto

definition numpy_quicksort :: "('a \<Rightarrow> 'k::linorder) \<Rightarrow> 'a list \<Rightarrow> 'a list" where
  "numpy_quicksort k a = qs k True (2 * int (msb (length a))) a"

text \<open>
  For the proofs about the heap sort: among the first \<open>n\<close> elements, the children of
  node \<open>p\<close> are not greater than \<open>p\<close>.
\<close>

definition heap_at :: "('a \<Rightarrow> 'k::linorder) \<Rightarrow> 'a list \<Rightarrow> nat \<Rightarrow> nat \<Rightarrow> bool" where
  "heap_at k a n p =
     ((2 * p + 1 < n \<longrightarrow> k (a ! (2 * p + 1)) \<le> k (a ! p))
      \<and> (2 * p + 2 < n \<longrightarrow> k (a ! (2 * p + 2)) \<le> k (a ! p)))"

subsection \<open>Two instances of pandas, and tables for the examples\<close>

text \<open>
  Nanosecond Timestamps (1677-09-22 to 2262-04-11), ISO dates as the only inferred
  format, and a stable sort.
\<close>

definition ns_bounds :: "date \<Rightarrow> bool" where
  "ns_bounds d = ((1677, 9, 22) \<le> d \<and> d \<le> (2262, 4, 11))"

definition infer_iso_only :: "string list \<Rightarrow> date list option" where
  "infer_iso_only col =
     those (map (\<lambda>s. case iso_date s of
                        None \<Rightarrow> None
                      | Some d \<Rightarrow> if ns_bounds d then Some d else None) col)"

definition pandas_stable :: pandas where
  "pandas_stable =
     \<lparr>timestamp_in_bounds = ns_bounds, to_datetime_infer = infer_iso_only,
      sort_values_Tanggal = sort_key Tanggal\<rparr>"

text \<open>The same, with the sort that \<open>sort_values\<close> runs by default: numpy's \<open>quicksort\<close>.\<close>

definition pandas_numpy :: pandas where
  "pandas_numpy =
     \<lparr>timestamp_in_bounds = ns_bounds, to_datetime_infer = infer_iso_only,
      sort_values_Tanggal = numpy_quicksort Tanggal\<rparr>"

definition jakarta_table :: "cell frame" where
  "jakarta_table =
     [(''Komoditas (Rp)'', [CStr ''Jakarta'']),
      (''01/01/2024'', [CStr ''12,500'']),
      (''02/01/2024'', [CStr ''-''])]"

definition iso_table :: "cell frame" where
  "iso_table =
     [(''Komoditas (Rp)'', [CStr ''Jakarta'']),
      (''2024-01-01'', [CStr ''12,500'']),
      (''2024-01-02'', [CStr ''13,000''])]"



definition sparse_table :: "cell frame" where
  "sparse_table =
     [(''Komoditas (Rp)'', [CStr ''Jakarta'', CStr ''Bali'']),
      (''01/01/2024'', [CStr ''12,500'', CStr ''-'']),
      (''02/01/2024'', [CStr ''-'', CStr ''-''])]"

definition no_id_table :: "cell frame" where
  "no_id_table =
     [(''Provinsi'', [CStr ''Jakarta'']),
      (''01/01/2024'', [CStr ''12,500''])]"

subsection \<open>The specification's side\<close>

text \<open>The pattern \<^verbatim>\<open>^-?\d[\d,]*$\<close> of the specification.\<close>

definition digits_commas :: "string \<Rightarrow> bool" where
  "digits_commas s =
     (case s of [] \<Rightarrow> False
      | c # r \<Rightarrow> is_digit c \<and> list_all (\<lambda>x. is_digit x \<or> x = CHR '','') r)"

definition price_pattern :: "string \<Rightarrow> bool" where
  "price_pattern s =
     (case s of [] \<Rightarrow> False
      | c # r \<Rightarrow> if c = CHR ''-'' then digits_commas r else digits_commas s)"

text \<open>The integer a text of that pattern denotes once its separators are removed.\<close>

definition decimal_value :: "string \<Rightarrow> int" where
  "decimal_value ds = foldl (\<lambda>a c. 10 * a + digit_val c) 0 ds"

definition separated_value :: "string \<Rightarrow> int" where
  "separated_value s =
     (case s of [] \<Rightarrow> 0
      | c # r \<Rightarrow> if c = CHR ''-'' then - decimal_value (replace_comma r)
                 else decimal_value (replace_comma s))"



text \<open>
  Re-pivoting a long table, as the specification words it: group by region, pivot the
  date headers to columns. Regions and headers stand in the order of their first
  appearance, and a cell holds the price of the first row of its region and header.
\<close>

definition firsts :: "'a list \<Rightarrow> 'a list" where
  "firsts xs = rev (remdups (rev xs))"

definition price_at :: "(string, int option) row list \<Rightarrow> string \<Rightarrow> cell \<Rightarrow> int option" where
  "price_at long l r =
     (case map_of (map (\<lambda>x. ((Tanggal x, Provinsi x), Harga x)) long) (l, r) of
        None \<Rightarrow> None
      | Some p \<Rightarrow> p)"

definition pivot :: "(string, int option) row list \<Rightarrow> int option wide" where
  "pivot long =
     \<lparr>index = firsts (map Provinsi long),
      cols = map (\<lambda>l. (l, map (price_at long l) (firsts (map Provinsi long))))
                 (firsts (map Tanggal long))\<rparr>"

definition no_missing :: "int option wide \<Rightarrow> bool" where
  "no_missing w = list_all (\<lambda>c. list_all (\<lambda>p. p \<noteq> None) c) (map snd (cols w))"

definition header_only_1 :: "int option wide" where
  "header_only_1 = \<lparr>index = [], cols = [(''01/01/2024'', [])]\<rparr>"

definition header_only_2 :: "int option wide" where
  "header_only_2 = \<lparr>index = [], cols = [(''02/01/2024'', [])]\<rparr>"


text \<open>The \<open>Tanggal\<close> column that \<open>pd.to_datetime\<close> is called on (source line 78).\<close>

definition date_column :: "'p wide \<Rightarrow> string list" where
  "date_column w = map Tanggal (replace_spaces (melt w))"







text \<open>A row of the final table, read as a row of the table that may hold \<open>pd.NA\<close>.\<close>

definition with_price :: "('d, int) row \<Rightarrow> ('d, int option) row" where
  "with_price r = \<lparr>Provinsi = Provinsi r, Tanggal = Tanggal r, Harga = Some (Harga r)\<rparr>"

text \<open>Every column of a wide table has one value per index entry.\<close>

definition rectangular :: "'a wide \<Rightarrow> bool" where
  "rectangular w = list_all (\<lambda>c. length c = length (index w)) (map snd (cols w))"

definition unparseable_table :: "cell frame" where
  "unparseable_table =
     [(''Komoditas (Rp)'', [CStr ''Jakarta'']),
      (''Januari'', [CStr ''12,500''])]"

definition prices_2x2 :: "int option wide" where
  "prices_2x2 =
     \<lparr>index = [CStr ''Jakarta'', CStr ''Bali''],
      cols = [(''01/01/2024'', [Some 100, Some 200]), (''02/01/2024'', [Some 110, Some 210])]\<rparr>"

text \<open>Row \<open>i\<close> of a wide table holds at least one price.\<close>

definition has_price :: "int option wide \<Rightarrow> nat \<Rightarrow> bool" where
  "has_price w i = list_ex (\<lambda>c. c ! i \<noteq> None) (map snd (cols w))"

text \<open>
  Numeric text: once the separators and the surrounding whitespace are removed, an
  optional sign and then digits, where single underscores may stand between digits
  (the decimal integers Python reads).
\<close>

definition digit_groups :: "string \<Rightarrow> bool" where
  "digit_groups s =
     (s \<noteq> [] \<and> list_all (\<lambda>c. is_digit c \<or> c = CHR ''_'') s
      \<and> is_digit (hd s) \<and> is_digit (last s)
      \<and> \<not> list_ex (\<lambda>(a, b). a = CHR ''_'' \<and> b = CHR ''_'') (zip s (tl s)))"

definition numeric_text :: "string \<Rightarrow> bool" where
  "numeric_text t =
     (case strip (replace_comma t) of
        [] \<Rightarrow> False
      | c # r \<Rightarrow> if c = CHR ''-'' \<or> c = CHR ''+'' then digit_groups r else digit_groups (c # r))"

section \<open>Properties\<close>

subsection \<open>The contract of pandas, and the two instances\<close>

lemma pandas_ok_bounds:
  "pandas_ok lib \<Longrightarrow> 1678 \<le> y \<Longrightarrow> y \<le> 2261 \<Longrightarrow> valid_date (y, m, d)
     \<Longrightarrow> timestamp_in_bounds lib (y, m, d)"
  by (simp add: pandas_ok_def)

lemma pandas_ok_length:
  "pandas_ok lib \<Longrightarrow> to_datetime_infer lib col = Some ds \<Longrightarrow> length ds = length col"
  by (simp add: pandas_ok_def)

lemma pandas_ok_sorted:
  "pandas_ok lib \<Longrightarrow> sorted (map Tanggal (sort_values_Tanggal lib xs))"
  by (simp add: pandas_ok_def)

lemma pandas_ok_mset:
  "pandas_ok lib \<Longrightarrow> mset (sort_values_Tanggal lib xs) = mset xs"
  by (simp add: pandas_ok_def)

lemma sort_values_single:
  assumes "pandas_ok lib"
  shows "sort_values_Tanggal lib [x] = [x]"
proof -
  have "mset (sort_values_Tanggal lib [x]) = {#x#}"
    using pandas_ok_mset [OF assms, of "[x]"] by simp
  then show ?thesis by (simp add: mset_single_iff_right)
qed

lemma those_length: "those xs = Some ys \<Longrightarrow> length ys = length xs"
  by (induction xs arbitrary: ys) (auto split: option.splits)

lemma valid_date_ns_bounds:
  assumes "1678 \<le> y" "y \<le> 2261" "valid_date (y, m, d)"
  shows "ns_bounds (y, m, d)"
  using assms by (auto simp: ns_bounds_def valid_date_def less_eq_prod_def less_prod_def)

lemma pandas_stable_ok: "pandas_ok pandas_stable"
  unfolding pandas_ok_def pandas_stable_def
  by (auto simp: valid_date_ns_bounds infer_iso_only_def dest: those_length)

lemma pandas_stable_iso: "infers_iso pandas_stable"
  unfolding infers_iso_def pandas_stable_def infer_iso_only_def
  apply (auto simp: list_all_iff)
  apply (rule arg_cong [where f = those])
  apply (auto split: option.splits)
  done

subsection \<open>No input, and no identifier column\<close>

text \<open>
  C10. Called with None, \<open>load_data\<close> reports the missing upload once and returns None:
  it raises nothing, reads nothing (no \<open>read_excel\<close>, no rewind, no \<open>read_csv\<close> among its
  effects) and returns no table.
\<close>

theorem load_data_no_input:
  "load_data lib None = ([StError MsgNoFile], Inr None)"
  by (simp add: load_data_def)

text \<open>
  C3. When the table read (from either reader) has no column \<open>Komoditas (Rp)\<close>,
  \<open>load_data\<close> reports the missing column and returns None: no table is returned, and
  nothing is raised.
\<close>

theorem load_data_missing_id_column:
  assumes "read_table f = (ev, Some df)" and "''Komoditas (Rp)'' \<notin> set (labels df)"
  shows "load_data lib (Some f) = (ev @ [StError MsgNoIdColumn], Inr None)"
  using assms by (simp add: load_data_def transform_def clean_wide_def)

theorem load_data_missing_id_column_witness:
  "read_table (File (Some no_id_table) None) = ([ReadExcel], Some no_id_table)
   \<and> ''Komoditas (Rp)'' \<notin> set (labels no_id_table)
   \<and> load_data pandas_stable (Some (File (Some no_id_table) None))
       = ([ReadExcel, StError MsgNoIdColumn], Inr None)"
proof -
  have r: "read_table (File (Some no_id_table) None) = ([ReadExcel], Some no_id_table)"
    by (simp add: read_table_def)
  have n: "''Komoditas (Rp)'' \<notin> set (labels no_id_table)"
    by (simp add: labels_def no_id_table_def)
  show ?thesis
    using load_data_missing_id_column [OF r n, of pandas_stable] r n by simp
qed

subsection \<open>The example of the specification\<close>

lemma clean_wide_jakarta:
  "clean_wide jakarta_table =
     Ok \<lparr>index = [CStr ''Jakarta''],
         cols = [(''01/01/2024'', [Some 12500]), (''02/01/2024'', [None])]\<rparr>"
  by code_simp

lemma to_datetime_dmY_2024:
  assumes "pandas_ok lib"
  shows "to_datetime_dmY lib [''01/01/2024'', ''02/01/2024''] = Some [(2024, 1, 1), (2024, 1, 2)]"
proof -
  have p1: "strptime_dmY ''01/01/2024'' = Some (2024, 1, 1)" by code_simp
  have p2: "strptime_dmY ''02/01/2024'' = Some (2024, 1, 2)" by code_simp
  have v1: "valid_date (2024, 1, 1)" by code_simp
  have v2: "valid_date (2024, 1, 2)" by code_simp
  have b1: "timestamp_in_bounds lib (2024, 1, 1)"
    using pandas_ok_bounds [OF assms _ _ v1] by simp
  have b2: "timestamp_in_bounds lib (2024, 1, 2)"
    using pandas_ok_bounds [OF assms _ _ v2] by simp
  show ?thesis by (simp add: to_datetime_dmY_def p1 p2 b1 b2)
qed

lemma headers_jakarta:
  "map Tanggal (replace_spaces (melt \<lparr>index = [CStr ''Jakarta''],
         cols = [(''01/01/2024'', [Some 12500]), (''02/01/2024'', [None])]\<rparr>))
   = [''01/01/2024'', ''02/01/2024'']"
  by code_simp

lemma transform_jakarta_wide:
  assumes "pandas_ok lib"
    and "clean_wide df =
           Ok \<lparr>index = [CStr ''Jakarta''],
               cols = [(''01/01/2024'', [Some 12500]), (''02/01/2024'', [None])]\<rparr>"
  shows "transform lib df =
           Ok ([\<lparr>Provinsi = CStr ''Jakarta'', Tanggal = (2024, 1, 1), Harga = 12500\<rparr>],
               \<lparr>t_index = [''01/01/2024'', ''02/01/2024''],
                t_columns = [CStr ''Jakarta''],
                t_rows = [[Some 12500], [None]]\<rparr>)"
proof -
  let ?w = "\<lparr>index = [CStr ''Jakarta''],
         cols = [(''01/01/2024'', [Some (12500::int)]), (''02/01/2024'', [None])]\<rparr>"
  have d: "dated_long lib ?w =
      Some [\<lparr>Provinsi = CStr ''Jakarta'', Tanggal = (2024, 1, 1), Harga = Some 12500\<rparr>,
            \<lparr>Provinsi = CStr ''Jakarta'', Tanggal = (2024, 1, 2), Harga = None\<rparr>]"
    unfolding dated_long_def Let_def headers_jakarta parse_dates_def
      to_datetime_dmY_2024 [OF assms(1)]
    by (simp add: set_Tanggal_def replace_spaces_def melt_def)
  have p: "priced_long
        [\<lparr>Provinsi = CStr ''Jakarta'', Tanggal = (2024, 1, 1) :: date, Harga = Some 12500\<rparr>,
         \<lparr>Provinsi = CStr ''Jakarta'', Tanggal = (2024, 1, 2), Harga = None\<rparr>]
        = Inr [\<lparr>Provinsi = CStr ''Jakarta'', Tanggal = (2024, 1, 1), Harga = 12500\<rparr>]"
    by (simp add: priced_long_def dropna_Harga_def astype_int_def int64_def)
  have t: "transpose_wide ?w = \<lparr>t_index = [''01/01/2024'', ''02/01/2024''],
                            t_columns = [CStr ''Jakarta''],
                            t_rows = [[Some 12500], [None]]\<rparr>"
    by (simp add: transpose_wide_def labels_def)
  show ?thesis
    by (simp add: transform_def assms(2) d p t sort_values_single [OF assms(1)])
qed

text \<open>
  C8. For the table with the columns \<open>Komoditas (Rp)\<close>, \<open>01/01/2024\<close>, \<open>02/01/2024\<close> and
  the one row \<open>Jakarta\<close>, \<open>12,500\<close>, \<open>-\<close>, whichever reader delivered it, \<open>load_data\<close>
  returns the long table of the single observation (Jakarta, 2024-01-01, 12500): the
  observation of 02/01/2024 has no price and is dropped.
\<close>

theorem load_data_jakarta:
  assumes "pandas_ok lib" and "read_table f = (ev, Some jakarta_table)"
  shows "load_data lib (Some f) =
           (ev, Inr (Some ([\<lparr>Provinsi = CStr ''Jakarta'', Tanggal = (2024, 1, 1), Harga = 12500\<rparr>],
                           \<lparr>t_index = [''01/01/2024'', ''02/01/2024''],
                            t_columns = [CStr ''Jakarta''],
                            t_rows = [[Some 12500], [None]]\<rparr>)))"
  using transform_jakarta_wide [OF assms(1) clean_wide_jakarta]
  by (simp add: load_data_def assms(2))

theorem load_data_jakarta_witness:
  "pandas_ok pandas_stable
   \<and> read_table (File (Some jakarta_table) None) = ([ReadExcel], Some jakarta_table)
   \<and> load_data pandas_stable (Some (File (Some jakarta_table) None)) =
       ([ReadExcel],
        Inr (Some ([\<lparr>Provinsi = CStr ''Jakarta'', Tanggal = (2024, 1, 1), Harga = 12500\<rparr>],
                   \<lparr>t_index = [''01/01/2024'', ''02/01/2024''],
                    t_columns = [CStr ''Jakarta''],
                    t_rows = [[Some 12500], [None]]\<rparr>)))"
proof -
  have r: "read_table (File (Some jakarta_table) None) = ([ReadExcel], Some jakarta_table)"
    by (simp add: read_table_def)
  show ?thesis
    using load_data_jakarta [OF pandas_stable_ok r] pandas_stable_ok r by simp
qed

subsection \<open>The price normalizer\<close>















lemma dropWhile_none: "\<forall>c\<in>set s. \<not> P c \<Longrightarrow> dropWhile P s = s"
  by (cases s) auto

lemma strip_no_space: "\<forall>c\<in>set s. \<not> is_space c \<Longrightarrow> strip s = s"
  by (simp add: strip_def dropWhile_none)

lemma digit_not_space: "is_digit c \<Longrightarrow> \<not> is_space c"
  by (simp add: is_digit_def is_space_def Let_def)

lemma minus_not_space: "\<not> is_space (CHR ''-'')"
  by (simp add: is_space_def)

lemma py_digits_all:
  "list_all is_digit ds \<Longrightarrow> py_digits acc ds = Some (foldl (\<lambda>a c. 10 * a + digit_val c) acc ds)"
  by (induction acc ds rule: py_digits.induct) (simp_all add: mult.commute)

lemma py_unsigned_digits:
  "ds \<noteq> [] \<Longrightarrow> list_all is_digit ds \<Longrightarrow> py_unsigned ds = Some (decimal_value ds)"
  by (cases ds) (simp_all add: py_unsigned_def decimal_value_def py_digits_all del: py_digits.simps)

lemma digits_commas_clean:
  assumes "digits_commas s"
  shows "replace_comma s \<noteq> [] \<and> list_all is_digit (replace_comma s)"
proof -
  obtain c r where s: "s = c # r" and c: "is_digit c"
    and r: "list_all (\<lambda>x. is_digit x \<or> x = CHR '','') r"
    using assms by (auto simp: digits_commas_def split: list.splits)
  have "c \<noteq> CHR '',''" using c by (auto simp: is_digit_def)
  moreover have "list_all is_digit (replace_comma r)"
    using r by (auto simp: replace_comma_def list_all_iff)
  ultimately show ?thesis using s c by (simp add: replace_comma_def)
qed

lemma int_of_str_digits:
  assumes "ds \<noteq> []" "list_all is_digit ds"
  shows "int_of_str ds = Some (decimal_value ds)"
    and "int_of_str (CHR ''-'' # ds) = Some (- decimal_value ds)"
proof -
  have ns: "\<forall>c\<in>set ds. \<not> is_space c"
    using assms(2) by (auto simp: list_all_iff digit_not_space)
  obtain c r where ds: "ds = c # r" using assms(1) by (cases ds) auto
  have c: "is_digit c" using assms(2) ds by simp
  then have cm: "c \<noteq> CHR ''-''" "c \<noteq> CHR ''+''" by (auto simp: is_digit_def)
  have st: "strip ds = ds" by (rule strip_no_space [OF ns])
  show "int_of_str ds = Some (decimal_value ds)"
    using py_unsigned_digits [OF assms] cm
    unfolding int_of_str_def st by (simp add: ds)
  have ns': "\<forall>c\<in>set (CHR ''-'' # ds). \<not> is_space c"
    using ns minus_not_space by simp
  have st': "strip (CHR ''-'' # ds) = CHR ''-'' # ds" by (rule strip_no_space [OF ns'])
  show "int_of_str (CHR ''-'' # ds) = Some (- decimal_value ds)"
    using py_unsigned_digits [OF assms]
    unfolding int_of_str_def st' by simp
qed

lemma clean_price_pattern:
  assumes "price_pattern s"
  shows "clean_price (CStr s) = Inr (Some (separated_value s))"
proof -
  obtain c r where s: "s = c # r" using assms by (cases s) (auto simp: price_pattern_def)
  show ?thesis
  proof (cases "c = CHR ''-''")
    case True
    then have dc: "digits_commas r" using assms s by (simp add: price_pattern_def)
    let ?ds = "replace_comma r"
    have ds: "?ds \<noteq> []" "list_all is_digit ?ds" using digits_commas_clean [OF dc] by simp_all
    have rc: "replace_comma s = CHR ''-'' # ?ds" using s True by (simp add: replace_comma_def)
    have ns: "\<forall>x\<in>set (CHR ''-'' # ?ds). \<not> is_space x"
      using ds(2) minus_not_space by (auto simp: list_all_iff digit_not_space)
    have st: "strip (replace_comma s) = CHR ''-'' # ?ds"
      unfolding rc by (rule strip_no_space [OF ns])
    have sv: "separated_value s = - decimal_value ?ds"
      using s True by (simp add: separated_value_def)
    show ?thesis
      using ds(1) int_of_str_digits(2) [OF ds]
      by (simp add: clean_price_def st try_int_def sv)
  next
    case False
    then have dc: "digits_commas s" using assms s by (simp add: price_pattern_def)
    let ?ds = "replace_comma s"
    have ds: "?ds \<noteq> []" "list_all is_digit ?ds" using digits_commas_clean [OF dc] by simp_all
    have ns: "\<forall>x\<in>set ?ds. \<not> is_space x"
      using ds(2) by (auto simp: list_all_iff digit_not_space)
    have st: "strip ?ds = ?ds" by (rule strip_no_space [OF ns])
    have nm: "?ds \<noteq> ''-''" using ds(2) by (auto simp: is_digit_def)
    have sv: "separated_value s = decimal_value ?ds"
      using s False by (simp add: separated_value_def)
    show ?thesis
      using ds(1) nm int_of_str_digits(1) [OF ds]
      by (simp add: clean_price_def st try_int_def sv)
  qed
qed

lemma strip_strip: "strip (strip s) = strip s"
proof -
  let ?u = "dropWhile is_space s"
  let ?v = "rev (dropWhile is_space (rev ?u))"
  have uv: "?u = ?v @ rev (takeWhile is_space (rev ?u))"
    by (metis rev_append rev_rev_ident takeWhile_dropWhile_id)
  have front: "dropWhile is_space ?v = ?v"
  proof (cases "?v = []")
    case True
    show ?thesis unfolding True by simp
  next
    case False
    have "?u \<noteq> []"
    proof
      assume e: "?u = []"
      have "?v = []" unfolding e by simp
      then show False using False by simp
    qed
    then have "\<not> is_space (hd ?u)" by (rule hd_dropWhile)
    moreover have "hd ?u = hd ?v" using uv False by (metis hd_append2)
    ultimately show ?thesis by (simp add: dropWhile_eq_self_iff)
  qed
  have rear: "dropWhile is_space (rev ?v) = rev ?v"
    by simp
  show ?thesis
    unfolding strip_def front rear by simp
qed

lemma digit_not_underscore: "is_digit c \<Longrightarrow> c \<noteq> CHR ''_''"
  by (auto simp: is_digit_def)

lemma py_digits_shape:
  "py_digits acc s = Some n \<Longrightarrow> s \<noteq> [] \<Longrightarrow>
     list_all (\<lambda>c. is_digit c \<or> c = CHR ''_'') s \<and> is_digit (last s)
     \<and> \<not> list_ex (\<lambda>(a, b). a = CHR ''_'' \<and> b = CHR ''_'') (zip s (tl s))"
proof (induction acc s arbitrary: n rule: py_digits.induct)
  case (1 acc)
  then show ?case by simp
next
  case (2 acc c)
  then show ?case by (simp split: if_splits)
next
  case (3 acc c d r)
  show ?case
  proof (cases "is_digit c")
    case True
    then have "py_digits (acc * 10 + digit_val c) (d # r) = Some n" using "3.prems" by simp
    from "3.IH"(1) [OF True this] True show ?thesis
      by (auto dest: digit_not_underscore)
  next
    case False
    then have c: "c = CHR ''_''" "is_digit d" and "py_digits acc (d # r) = Some n"
      using "3.prems" by (auto split: if_splits)
    from "3.IH"(2) [OF False _ this(3)] c show ?thesis
      by (auto dest: digit_not_underscore)
  qed
qed

lemma py_unsigned_shape: "py_unsigned s = Some n \<Longrightarrow> digit_groups s"
proof -
  assume a: "py_unsigned s = Some n"
  then obtain c r where s: "s = c # r" and c: "is_digit c" and p: "py_digits 0 s = Some n"
    by (auto simp: py_unsigned_def split: list.splits if_splits)
  have "s \<noteq> []" using s by simp
  from py_digits_shape [OF p this] s c show ?thesis
    by (simp add: digit_groups_def)
qed

lemma py_unsigned_not_groups: "\<not> digit_groups s \<Longrightarrow> py_unsigned s = None"
  using py_unsigned_shape [of s] by (cases "py_unsigned s") auto

lemma clean_price_not_numeric:
  assumes "\<not> numeric_text t"
  shows "clean_price (CStr t) = Inr None"
proof -
  let ?p = "strip (replace_comma t)"
  have "int_of_str ?p = None"
    using assms unfolding int_of_str_def strip_strip numeric_text_def
    by (auto split: list.splits if_splits simp: py_unsigned_not_groups)
  then show ?thesis by (simp add: clean_price_def Let_def try_int_def)
qed

text \<open>
  C2. A text of the pattern \<^verbatim>\<open>^-?\d[\d,]*$\<close> is cleaned to the integer it denotes once
  its separators are removed; the token \<open>-\<close>, the empty text and every text that is
  not numeric are cleaned to the missing marker; and an integer is returned as it is.
\<close>

theorem clean_price_normalizer:
  "(price_pattern s \<longrightarrow> clean_price (CStr s) = Inr (Some (separated_value s)))
   \<and> clean_price (CStr ''-'') = Inr None
   \<and> clean_price (CStr '''') = Inr None
   \<and> (\<not> numeric_text t \<longrightarrow> clean_price (CStr t) = Inr None)
   \<and> clean_price (CInt n) = Inr (Some n)"
proof -
  have a: "clean_price (CStr ''-'') = Inr None" by code_simp
  have b: "clean_price (CStr '''') = Inr None" by code_simp
  have c: "clean_price (CInt n) = Inr (Some n)" by (simp add: clean_price_def try_int_def)
  show ?thesis using a b c clean_price_pattern clean_price_not_numeric by blast
qed

theorem clean_price_normalizer_witness:
  "price_pattern ''-1,234,567''
   \<and> separated_value ''-1,234,567'' = - 1234567
   \<and> clean_price (CStr ''-1,234,567'') = Inr (Some (- 1234567))
   \<and> \<not> numeric_text ''Rp 12.500''
   \<and> clean_price (CStr ''Rp 12.500'') = Inr None
   \<and> clean_price (CInt 12500) = Inr (Some 12500)"
proof -
  have p: "price_pattern ''-1,234,567''" by code_simp
  have v: "separated_value ''-1,234,567'' = - 1234567" by code_simp
  have d: "\<not> numeric_text ''Rp 12.500''" by code_simp
  show ?thesis
    using clean_price_normalizer [of "''-1,234,567''" "''Rp 12.500''" 12500] p v d by simp
qed

subsection \<open>numpy's \<open>quicksort\<close> sorts\<close>

text \<open>
  The sort \<open>sort_values\<close> runs returns, on every list of rows and for every key, the rows
  it was given in ascending order of the key. First the partition: the part before the
  pivot holds keys up to the pivot's, the part after it keys from the pivot's on, and
  both are shorter than the range, so the recursion ends.
\<close>

lemma length_intp_swap [simp]: "length (intp_swap i j a) = length a"
  by (simp add: intp_swap_def)

lemma mset_intp_swap:
  "i < length a \<Longrightarrow> j < length a \<Longrightarrow> mset (intp_swap i j a) = mset a"
  unfolding intp_swap_def by (simp add: mset_swap)

lemma nth_intp_swap:
  "i < length a \<Longrightarrow> j < length a \<Longrightarrow>
     intp_swap i j a ! q = (if q = j then a ! i else if q = i then a ! j else a ! q)"
  by (simp add: intp_swap_def nth_list_update)

lemma median3_props:
  assumes "3 \<le> length a"
  shows "length (median3 k a) = length a"
    and "mset (median3 k a) = mset a"
    and "k (median3 k a ! 0) \<le> k (median3 k a ! ((length a - 1) div 2))"
    and "k (median3 k a ! ((length a - 1) div 2)) \<le> k (median3 k a ! (length a - 1))"
proof -
  let ?r = "length a - 1"
  let ?m = "?r div 2"
  have b: "0 < ?m" "?m < ?r" "?r < length a" "?m < length a" "0 < length a"
    using assms by auto
  show "length (median3 k a) = length a" by (simp add: median3_def Let_def)
  show "mset (median3 k a) = mset a"
    using b by (simp add: median3_def Let_def mset_intp_swap)
  show "k (median3 k a ! 0) \<le> k (median3 k a ! ?m)"
    using b by (auto simp: median3_def Let_def nth_intp_swap)
  show "k (median3 k a ! ?m) \<le> k (median3 k a ! ?r)"
    using b by (auto simp: median3_def Let_def nth_intp_swap)
qed

lemma scan_up_gt: "i < scan_up k vp a i"
  by (simp add: scan_up_def)

lemma scan_up_passed:
  assumes "i < q" "q < scan_up k vp a i"
  shows "k (a ! q) < vp"
proof -
  let ?t = "takeWhile (\<lambda>x. k x < vp) (drop (i + 1) a)"
  have q: "q - (i + 1) < length ?t" using assms by (simp add: scan_up_def)
  then have "?t ! (q - (i + 1)) \<in> set ?t" by (rule nth_mem)
  then have "k (?t ! (q - (i + 1))) < vp" by (auto dest: set_takeWhileD)
  moreover have "?t ! (q - (i + 1)) = drop (i + 1) a ! (q - (i + 1))"
    using q by (rule takeWhile_nth)
  moreover have "q < length a"
    using q length_takeWhile_le [of "\<lambda>x. k x < vp" "drop (i + 1) a"] by simp
  ultimately show ?thesis using assms(1) by simp
qed

lemma scan_up_stop:
  assumes "scan_up k vp a i < length a"
  shows "\<not> k (a ! scan_up k vp a i) < vp"
proof -
  let ?d = "drop (i + 1) a"
  let ?t = "takeWhile (\<lambda>x. k x < vp) ?d"
  have "length ?t < length ?d" using assms by (simp add: scan_up_def)
  then have "\<not> k (?d ! length ?t) < vp" by (rule nth_length_takeWhile)
  moreover have "?d ! length ?t = a ! scan_up k vp a i"
    using assms by (simp add: scan_up_def add.commute add.left_commute)
  ultimately show ?thesis by simp
qed

lemma scan_up_sentinel:
  assumes "i < s" "s < length a" "\<not> k (a ! s) < vp"
  shows "scan_up k vp a i \<le> s"
proof (rule ccontr)
  assume "\<not> scan_up k vp a i \<le> s"
  then have "s < scan_up k vp a i" by simp
  from scan_up_passed [OF assms(1) this] assms(3) show False by simp
qed

lemma scan_down_lt: "0 < j \<Longrightarrow> scan_down k vp a j < j"
  by (simp add: scan_down_def)

lemma scan_down_passed:
  assumes "j \<le> length a" "scan_down k vp a j < q" "q < j"
  shows "vp < k (a ! q)"
proof -
  let ?r = "rev (take j a)"
  let ?t = "takeWhile (\<lambda>x. vp < k x) ?r"
  have le: "length ?t \<le> j" using length_takeWhile_le [of _ ?r] assms(1) by simp
  have q: "j - 1 - q < length ?t" using assms le by (simp add: scan_down_def)
  then have "?t ! (j - 1 - q) \<in> set ?t" by (rule nth_mem)
  then have "vp < k (?t ! (j - 1 - q))" by (auto dest: set_takeWhileD)
  moreover have "?t ! (j - 1 - q) = ?r ! (j - 1 - q)" using q by (rule takeWhile_nth)
  moreover have "?r ! (j - 1 - q) = a ! q"
    using assms by (simp add: rev_nth)
  ultimately show ?thesis by simp
qed

lemma scan_down_sentinel:
  assumes "j \<le> length a" "t < j" "\<not> vp < k (a ! t)"
  shows "t \<le> scan_down k vp a j" and "\<not> vp < k (a ! scan_down k vp a j)"
proof -
  let ?r = "rev (take j a)"
  let ?t = "takeWhile (\<lambda>x. vp < k x) ?r"
  have "\<not> j - 1 - t < length ?t"
  proof
    assume h: "j - 1 - t < length ?t"
    then have "?t ! (j - 1 - t) \<in> set ?t" by (rule nth_mem)
    then have "vp < k (?t ! (j - 1 - t))" by (auto dest: set_takeWhileD)
    moreover have "?t ! (j - 1 - t) = ?r ! (j - 1 - t)" using h by (rule takeWhile_nth)
    moreover have "?r ! (j - 1 - t) = a ! t" using assms by (simp add: rev_nth)
    ultimately show False using assms(3) by simp
  qed
  then have le: "length ?t \<le> j - 1 - t" by simp
  then show "t \<le> scan_down k vp a j" using assms(2) by (simp add: scan_down_def)
  have lt: "length ?t < length ?r" using le assms(1,2) by simp
  then have "\<not> vp < k (?r ! length ?t)" by (rule nth_length_takeWhile)
  moreover have "?r ! length ?t = a ! scan_down k vp a j"
    using lt assms(1) by (simp add: rev_nth scan_down_def)
  ultimately show "\<not> vp < k (a ! scan_down k vp a j)" by simp
qed

lemma hoare_props:
  assumes "i < j" "j < length a"
    and "\<forall>q\<le>i. k (a ! q) \<le> vp"
    and "\<forall>q. j \<le> q \<and> q < length a \<longrightarrow> vp \<le> k (a ! q)"
    and "hoare k vp a i j = (b, p)"
  shows "length b = length a \<and> mset b = mset a \<and> i < p \<and> p \<le> j
         \<and> (\<forall>q<p. k (b ! q) \<le> vp)
         \<and> (\<forall>q. p \<le> q \<and> q < length b \<longrightarrow> vp \<le> k (b ! q))
         \<and> (\<forall>q. j \<le> q \<longrightarrow> b ! q = a ! q)"
  using assms
proof (induction k vp a i j arbitrary: b p rule: hoare.induct)
  case (1 k vp a i j)
  let ?i = "scan_up k vp a i"
  let ?j = "scan_down k vp a j"
  have jl: "j \<le> length a" using "1.prems"(2) by simp
  have aj: "\<not> k (a ! j) < vp" using "1.prems"(2,4) by (auto simp: not_less)
  have ai: "\<not> vp < k (a ! i)" using "1.prems"(3) by (auto simp: not_less)
  have i1: "i < ?i" by (rule scan_up_gt)
  have i2: "?i \<le> j" using "1.prems"(1,2) aj by (rule scan_up_sentinel [of i j a k vp])
  have i3: "vp \<le> k (a ! ?i)"
    using scan_up_stop [of k vp a i] i2 "1.prems"(2) by (simp add: not_less)
  have j1: "?j < j" using "1.prems"(1) by (intro scan_down_lt) simp
  have j2: "i \<le> ?j" using jl "1.prems"(1) ai by (rule scan_down_sentinel(1) [of j a i vp k])
  have j3: "k (a ! ?j) \<le> vp"
    using scan_down_sentinel(2) [of j a i vp k, OF jl "1.prems"(1) ai] by (simp add: not_less)
  have low: "k (a ! q) \<le> vp" if "q < ?i" for q
  proof (cases "q \<le> i")
    case True
    then show ?thesis using "1.prems"(3) by simp
  next
    case False
    then show ?thesis using scan_up_passed [of i q k vp a] that by simp
  qed
  have high: "vp \<le> k (a ! q)" if "?j < q" "q < length a" for q
  proof (cases "q < j")
    case True
    then show ?thesis using scan_down_passed [of j a k vp q, OF jl that(1)] by simp
  next
    case False
    then show ?thesis using "1.prems"(4) that(2) by simp
  qed
  show ?case
  proof (cases "?j \<le> ?i")
    case True
    then have res: "b = a" "p = ?i"
      using "1.prems"(5) by (auto simp: hoare.simps [of k vp a i j] Let_def)
    have "vp \<le> k (a ! q)" if "?i \<le> q" "q < length a" for q
    proof (cases "q = ?i")
      case True
      then show ?thesis using i3 by simp
    next
      case False
      then have "?j < q" using that(1) \<open>?j \<le> ?i\<close> by simp
      then show ?thesis using high that(2) by simp
    qed
    then show ?thesis using res i1 i2 low by simp
  next
    case False
    then have lt: "?i < ?j" by simp
    let ?a = "intp_swap ?i ?j a"
    have il: "?i < length a" "?j < length a" using i2 j1 "1.prems"(2) by simp_all
    have rec: "hoare k vp ?a ?i ?j = (b, p)"
      using "1.prems"(5) False by (simp add: hoare.simps [of k vp a i j] Let_def)
    have p3: "\<forall>q\<le>?i. k (?a ! q) \<le> vp"
      using low j3 lt il by (auto simp: nth_intp_swap)
    have p4: "\<forall>q. ?j \<le> q \<and> q < length ?a \<longrightarrow> vp \<le> k (?a ! q)"
      using high i3 lt il by (auto simp: nth_intp_swap)
    have jl': "?j < length ?a" using il by simp
    note IH = "1.IH" [OF refl refl False lt jl' p3 p4 rec]
    have "b ! q = a ! q" if "j \<le> q" for q
    proof -
      have "b ! q = ?a ! q" using IH that j1 by simp
      also have "\<dots> = a ! q" using that j1 lt il by (simp add: nth_intp_swap)
      finally show ?thesis .
    qed
    then show ?thesis using IH i1 j1 il by (simp add: mset_intp_swap)
  qed
qed

lemma partition3_props:
  assumes "3 \<le> length a" and "partition3 k a = (l, p, r)"
  shows "mset a = mset l + {#p#} + mset r"
    and "\<forall>x\<in>set l. k x \<le> k p" and "\<forall>x\<in>set r. k p \<le> k x"
    and "length l < length a" and "length r < length a"
proof -
  define n1 where "n1 = length a - 1"
  define m where "m = n1 div 2"
  define s where "s = n1 - 1"
  define a3 where "a3 = median3 k a"
  define vp where "vp = k (a3 ! m)"
  define a4 where "a4 = intp_swap m s a3"
  obtain a5 i where h: "hoare k vp a4 0 s = (a5, i)" by (cases "hoare k vp a4 0 s")
  define a6 where "a6 = intp_swap i s a5"
  have "partition3 k a = (take i a6, a6 ! i, drop (i + 1) a6)"
    using h by (simp add: partition3_def Let_def n1_def m_def s_def a3_def vp_def a4_def a6_def)
  then have res: "l = take i a6" "p = a6 ! i" "r = drop (i + 1) a6"
    using assms(2) by simp_all
  have b: "0 < m" "m \<le> s" "0 < s" "s < length a" "n1 = Suc s" "n1 < length a"
    using assms(1) by (auto simp: n1_def m_def s_def)
  have m3: "length a3 = length a" "mset a3 = mset a" "k (a3 ! 0) \<le> vp" "vp \<le> k (a3 ! n1)"
    using median3_props [OF assms(1), of k] by (simp_all add: a3_def vp_def m_def n1_def)
  have l4: "length a4 = length a" using m3(1) by (simp add: a4_def)
  have n4: "a4 ! q = (if q = s then a3 ! m else if q = m then a3 ! s else a3 ! q)" for q
    unfolding a4_def using b m3(1) by (simp add: nth_intp_swap)
  have pre3: "\<forall>q\<le>0. k (a4 ! q) \<le> vp"
    using b m3(3) by (simp add: n4)
  have pre4: "\<forall>q. s \<le> q \<and> q < length a4 \<longrightarrow> vp \<le> k (a4 ! q)"
  proof (intro allI impI)
    fix q assume q: "s \<le> q \<and> q < length a4"
    then have "q = s \<or> q = n1" using l4 b by (auto simp: n1_def)
    then show "vp \<le> k (a4 ! q)" using b m3(4) by (auto simp: n4 vp_def)
  qed
  have j4: "s < length a4" using b l4 by simp
  note hp = hoare_props [OF b(3) j4 pre3 pre4 h]
  have l5: "length a5 = length a" using hp l4 by simp
  have i: "0 < i" "i \<le> s" "i < length a" using hp b by auto
  have piv: "k (a5 ! s) = vp" using hp by (simp add: n4 vp_def)
  have n6: "a6 ! q = (if q = s then a5 ! i else if q = i then a5 ! s else a5 ! q)" for q
    unfolding a6_def using i b l5 by (simp add: nth_intp_swap)
  have kp: "k p = vp" using res(2) piv i by (simp add: n6)
  have l6: "length a6 = length a" using l5 by (simp add: a6_def)
  have m6: "mset a6 = mset a"
    unfolding a6_def using hp i b l5 m3(1,2) by (simp add: mset_intp_swap a4_def)
  have "take i a6 @ a6 ! i # drop (Suc i) a6 = a6"
    using i l6 by (intro id_take_nth_drop [symmetric]) simp
  then have "mset (take i a6 @ a6 ! i # drop (Suc i) a6) = mset a" using m6 by simp
  then show "mset a = mset l + {#p#} + mset r" unfolding res by simp
  show "\<forall>x\<in>set l. k x \<le> k p"
  proof
    fix x assume "x \<in> set l"
    then obtain q where q: "q < i" "x = a6 ! q"
      unfolding res(1) using i l6 by (auto simp: in_set_conv_nth)
    then have "x = a5 ! q" using i by (simp add: n6)
    then show "k x \<le> k p" using hp q(1) kp by simp
  qed
  show "\<forall>x\<in>set r. k p \<le> k x"
  proof
    fix x assume "x \<in> set r"
    then obtain q' where q': "q' < length a6 - (i + 1)" "x = a6 ! (i + 1 + q')"
      unfolding res(3) by (auto simp: in_set_conv_nth)
    define q where "q = i + 1 + q'"
    have q: "i < q" "q < length a" "x = a6 ! q" using q' l6 by (simp_all add: q_def)
    have "vp \<le> k (a5 ! i)" "vp \<le> k (a5 ! q)" using hp q l5 i by simp_all
    then show "k p \<le> k x" using q kp by (simp add: n6)
  qed
  show "length l < length a" using res(1) i l6 by simp
  show "length r < length a" using res(3) i l6 by simp
qed

lemma partition3_shorter:
  assumes "(l, pr) = partition3 k a" and "17 < length a"
  shows "length l < length a" "length (snd pr) < length a"
proof -
  have e: "partition3 k a = (l, fst pr, snd pr)" using assms(1) by (metis prod.collapse)
  have "3 \<le> length a" using assms(2) by simp
  from partition3_props(4) [OF this e] partition3_props(5) [OF this e]
  show "length l < length a" "length (snd pr) < length a" by simp_all
qed

termination qs
  by (relation "measure (\<lambda>(k, popped, d, a). length a)")
    (auto dest: partition3_shorter)

declare qs.simps [simp del]

text \<open>The insertion sort of the short ranges.\<close>

lemma insert_back_mset: "mset (insert_back k ys x) = add_mset x (mset ys)"
proof -
  let ?P = "\<lambda>y. k x < k y"
  have "mset (rev (dropWhile ?P (rev ys))) + mset (rev (takeWhile ?P (rev ys))) = mset (rev ys)"
    by (metis mset_append mset_rev takeWhile_dropWhile_id union_commute)
  then show ?thesis by (simp add: insert_back_def)
qed

lemma sorted_le_last:
  "sorted (map k xs) \<Longrightarrow> x \<in> set xs \<Longrightarrow> k x \<le> k (last xs)"
  by (induction xs) (auto split: if_splits)

lemma insert_back_sorted:
  assumes "sorted (map k ys)"
  shows "sorted (map k (insert_back k ys x))"
proof -
  let ?P = "\<lambda>y. k x < k y"
  let ?A = "rev (dropWhile ?P (rev ys))"
  let ?B = "rev (takeWhile ?P (rev ys))"
  have ab: "?A @ ?B = ys"
    by (metis rev_append rev_rev_ident takeWhile_dropWhile_id)
  have sab: "sorted (map k (?A @ ?B))" using assms ab by simp
  have B: "\<forall>y\<in>set ?B. k x \<le> k y" by (auto dest: set_takeWhileD)
  have A: "\<forall>y\<in>set ?A. k y \<le> k x"
  proof (cases "?A = []")
    case True
    show ?thesis unfolding True by simp
  next
    case False
    then have ne: "dropWhile ?P (rev ys) \<noteq> []" by simp
    have "\<not> ?P (hd (dropWhile ?P (rev ys)))" using ne by (rule hd_dropWhile)
    moreover have "last ?A = hd (dropWhile ?P (rev ys))" using ne by (simp add: last_rev)
    ultimately have l: "k (last ?A) \<le> k x" by simp
    have "sorted (map k ?A)" using sab by (simp add: sorted_append)
    then have "\<forall>y\<in>set ?A. k y \<le> k (last ?A)" by (blast intro: sorted_le_last)
    then show ?thesis using l by (meson order_trans)
  qed
  show ?thesis
    unfolding insert_back_def using sab A B by (auto simp: sorted_append)
qed

lemma insertion_sort_props:
  "sorted (map k (insertion_sort k a))" "mset (insertion_sort k a) = mset a"
proof -
  have "sorted (map k ys) \<Longrightarrow> sorted (map k (foldl (insert_back k) ys a))
          \<and> mset (foldl (insert_back k) ys a) = mset ys + mset a" for ys
    by (induction a arbitrary: ys) (simp_all add: insert_back_sorted insert_back_mset)
  from this [of "[]"] show "sorted (map k (insertion_sort k a))"
    "mset (insertion_sort k a) = mset a"
    by (simp_all add: insertion_sort_def)
qed

text \<open>The heap sort of the ranges below the depth limit.\<close>

lemma sift_props:
  assumes "n \<le> length a" and "i < n" and "lo \<le> i"
    and "\<forall>p. lo \<le> p \<and> p \<noteq> i \<longrightarrow> heap_at k a n p"
    and "\<forall>q c. lo \<le> q \<and> (i = 2 * q + 1 \<or> i = 2 * q + 2) \<and> (c = 2 * i + 1 \<or> c = 2 * i + 2) \<and> c < n
           \<longrightarrow> k (a ! c) \<le> k (a ! q)"
  shows "length (sift k a i n) = length a \<and> mset (sift k a i n) = mset a
         \<and> (\<forall>p. lo \<le> p \<longrightarrow> heap_at k (sift k a i n) n p)
         \<and> (\<forall>q. q < i \<or> n \<le> q \<longrightarrow> sift k a i n ! q = a ! q)"
  using assms
proof (induction k a i n rule: sift.induct)
  case (1 k a i n)
  define j where "j = 2 * i + 1"
  define c where "c = (if j + 1 < n \<and> k (a ! j) < k (a ! (j + 1)) then j + 1 else j)"
  have unf: "sift k a i n =
      (if j < n then (if k (a ! i) < k (a ! c) then sift k (intp_swap i c a) c n else a) else a)"
    unfolding c_def j_def by (subst sift.simps) (simp add: Let_def)
  show ?case
  proof (cases "j < n")
    case False
    then have s: "sift k a i n = a" by (simp add: unf)
    have "heap_at k a n i" using False by (simp add: heap_at_def j_def)
    then have "\<forall>p. lo \<le> p \<longrightarrow> heap_at k a n p" using "1.prems"(4) by blast
    then show ?thesis unfolding s by simp
  next
    case True
    have cj: "c = 2 * i + 1 \<or> c = 2 * i + 2" and cn: "c < n" and ic: "i < c"
      using True by (auto simp: c_def j_def)
    have cmax1: "k (a ! (2 * i + 1)) \<le> k (a ! c)"
      by (auto simp: c_def j_def)
    have cmax2: "2 * i + 2 < n \<Longrightarrow> k (a ! (2 * i + 2)) \<le> k (a ! c)"
      by (auto simp: c_def j_def not_less)
    show ?thesis
    proof (cases "k (a ! i) < k (a ! c)")
      case False
      then have s: "sift k a i n = a"
        using True by (simp add: unf)
      have le: "k (a ! c) \<le> k (a ! i)" using False by simp
      have "heap_at k a n i"
        unfolding heap_at_def using cmax1 cmax2 le by (meson order_trans)
      then have "\<forall>p. lo \<le> p \<longrightarrow> heap_at k a n p" using "1.prems"(4) by blast
      then show ?thesis unfolding s by simp
    next
      case lt: True
      define a' where "a' = intp_swap i c a"
      have s: "sift k a i n = sift k a' c n"
        using True lt by (simp add: unf a'_def)
      have il: "i < length a" "c < length a" using "1.prems"(1,2) cn by simp_all
      have nth: "a' ! q = (if q = c then a ! i else if q = i then a ! c else a ! q)" for q
        unfolding a'_def using il by (rule nth_intp_swap)
      have la: "length a' = length a" by (simp add: a'_def)
      have p1: "n \<le> length a'" using "1.prems"(1) la by simp
      have p3: "lo \<le> c" using "1.prems"(3) ic by simp
      have hc: "heap_at k a n c" using "1.prems"(4) p3 ic by simp
      have p4: "\<forall>p. lo \<le> p \<and> p \<noteq> c \<longrightarrow> heap_at k a' n p"
      proof (intro allI impI)
        fix p assume p: "lo \<le> p \<and> p \<noteq> c"
        show "heap_at k a' n p"
        proof (cases "p = i")
          case True
          have "k (a ! i) \<le> k (a ! c)" using lt by simp
          then show ?thesis
            unfolding heap_at_def True nth using cmax1 cmax2 cj ic by auto
        next
          case False
          have hp: "heap_at k a n p" using "1.prems"(4) p False by simp
          have ne1: "2 * p + 1 \<noteq> c" "2 * p + 2 \<noteq> c" using cj False by auto
          have g1: "2 * p + 1 = i \<Longrightarrow> k (a ! c) \<le> k (a ! p)"
            using "1.prems"(5) p cj cn by auto
          have g2: "2 * p + 2 = i \<Longrightarrow> k (a ! c) \<le> k (a ! p)"
            using "1.prems"(5) p cj cn by auto
          show ?thesis
            unfolding heap_at_def nth using hp False p ne1 g1 g2
            by (auto simp: heap_at_def)
        qed
      qed
      have p5: "\<forall>q c'. lo \<le> q \<and> (c = 2 * q + 1 \<or> c = 2 * q + 2) \<and> (c' = 2 * c + 1 \<or> c' = 2 * c + 2) \<and> c' < n
                 \<longrightarrow> k (a' ! c') \<le> k (a' ! q)"
      proof (intro allI impI)
        fix q c'
        assume h: "lo \<le> q \<and> (c = 2 * q + 1 \<or> c = 2 * q + 2) \<and> (c' = 2 * c + 1 \<or> c' = 2 * c + 2) \<and> c' < n"
        then have qi: "q = i" using cj by auto
        have "c' \<noteq> c" "c' \<noteq> i" using h ic by auto
        then have "a' ! c' = a ! c'" by (simp add: nth)
        moreover have "a' ! q = a ! c" using qi ic by (simp add: nth)
        moreover have "k (a ! c') \<le> k (a ! c)" using hc h by (auto simp: heap_at_def)
        ultimately show "k (a' ! c') \<le> k (a' ! q)" by simp
      qed
      note IH = "1.IH" [OF j_def True c_def lt p1 [unfolded a'_def] cn p3 p4 [unfolded a'_def]
          p5 [unfolded a'_def], folded a'_def]
      have "sift k a' c n ! q = a ! q" if "q < i \<or> n \<le> q" for q
      proof -
        have "q < c \<or> n \<le> q" using that ic by auto
        then have "sift k a' c n ! q = a' ! q" using IH by blast
        also have "\<dots> = a ! q" using that ic cn by (auto simp: nth)
        finally show ?thesis .
      qed
      moreover have "mset a' = mset a" unfolding a'_def using il by (simp add: mset_intp_swap)
      ultimately show ?thesis unfolding s using IH la by simp
    qed
  qed
qed

lemma heap_root_max:
  assumes "\<forall>p. heap_at k a n p" and "j < n"
  shows "k (a ! j) \<le> k (a ! 0)"
  using assms(2)
proof (induction j rule: less_induct)
  case (less j)
  show ?case
  proof (cases "j = 0")
    case True
    then show ?thesis by simp
  next
    case False
    define q where "q = (j - 1) div 2"
    have jq: "j = 2 * q + 1 \<or> j = 2 * q + 2" using False unfolding q_def by presburger
    have qj: "q < j" using False unfolding q_def by presburger
    have "heap_at k a n q" using assms(1) by simp
    then have "k (a ! j) \<le> k (a ! q)" using jq less.prems by (auto simp: heap_at_def)
    also have "\<dots> \<le> k (a ! 0)" using less.IH [OF qj] qj less.prems by simp
    finally show ?thesis .
  qed
qed

lemma heapify_props:
  "length (heapify k a) = length a \<and> mset (heapify k a) = mset a
   \<and> (\<forall>p. heap_at k (heapify k a) (length a) p)"
proof -
  define n where "n = length a"
  define f where "f = (\<lambda>b l. sift k b l n)"
  have step: "length (foldl f b (rev [0..<h])) = n \<and> mset (foldl f b (rev [0..<h])) = mset b
      \<and> (\<forall>p. heap_at k (foldl f b (rev [0..<h])) n p)"
    if "length b = n" "h \<le> n div 2" "\<forall>p. h \<le> p \<longrightarrow> heap_at k b n p" for b h
    using that
  proof (induction h arbitrary: b)
    case 0
    then show ?case by simp
  next
    case (Suc h)
    have hn: "h < n" using Suc.prems(2) by simp
    have g: "\<forall>q c. h \<le> q \<and> (h = 2 * q + 1 \<or> h = 2 * q + 2) \<and> (c = 2 * h + 1 \<or> c = 2 * h + 2) \<and> c < n
               \<longrightarrow> k (b ! c) \<le> k (b ! q)"
      by auto
    have e: "\<forall>p. h \<le> p \<and> p \<noteq> h \<longrightarrow> heap_at k b n p" using Suc.prems(3) by simp
    have nl: "n \<le> length b" using Suc.prems(1) by simp
    note sp = sift_props [OF nl hn order_refl e g]
    have "length (f b h) = n" "h \<le> n div 2" "\<forall>p. h \<le> p \<longrightarrow> heap_at k (f b h) n p"
      using sp Suc.prems(1,2) by (simp_all add: f_def)
    from Suc.IH [OF this] sp show ?case by (simp add: f_def)
  qed
  have "\<forall>p. n div 2 \<le> p \<longrightarrow> heap_at k a n p" by (auto simp: heap_at_def)
  from step [OF n_def [symmetric] order_refl this] show ?thesis
    by (simp add: heapify_def f_def n_def)
qed

lemma pop_max_props:
  assumes len: "length b = n" and m: "2 \<le> m" "m \<le> n"
    and heap: "\<forall>p. heap_at k b m p"
    and srt: "sorted (map k (drop m b))"
    and sep: "\<forall>x\<in>set (take m b). \<forall>y\<in>set (drop m b). k x \<le> k y"
  shows "length (pop_max k b m) = n \<and> mset (pop_max k b m) = mset b
    \<and> (\<forall>p. heap_at k (pop_max k b m) (m - 1) p)
    \<and> sorted (map k (drop (m - 1) (pop_max k b m)))
    \<and> (\<forall>x\<in>set (take (m - 1) (pop_max k b m)). \<forall>y\<in>set (drop (m - 1) (pop_max k b m)). k x \<le> k y)"
proof -
  define s where "s = m - 1"
  define b1 where "b1 = intp_swap 0 s b"
  define b' where "b' = sift k b1 0 s"
  have pm: "pop_max k b m = b'" by (simp add: pop_max_def b'_def b1_def s_def)
  have sl: "0 < s" "s < length b" "m = Suc s" using m len by (simp_all add: s_def)
  have z: "0 < length b" using sl by linarith
  have nth1: "b1 ! q = (if q = s then b ! 0 else if q = 0 then b ! s else b ! q)" for q
    unfolding b1_def by (rule nth_intp_swap [OF z sl(2)])
  have l1: "length b1 = length b" by (simp add: b1_def)
  have m1: "mset b1 = mset b" unfolding b1_def by (rule mset_intp_swap [OF z sl(2)])
  have e: "\<forall>p. 0 \<le> p \<and> p \<noteq> 0 \<longrightarrow> heap_at k b1 s p"
  proof (intro allI impI)
    fix p :: nat assume "0 \<le> p \<and> p \<noteq> 0"
    then have p: "0 < p" by simp
    have "heap_at k b m p" using heap by simp
    then show "heap_at k b1 s p" using p sl by (auto simp: heap_at_def nth1)
  qed
  have g: "\<forall>q c. 0 \<le> q \<and> ((0::nat) = 2 * q + 1 \<or> 0 = 2 * q + 2) \<and> (c = 2 * 0 + 1 \<or> c = 2 * 0 + 2) \<and> c < s
             \<longrightarrow> k (b1 ! c) \<le> k (b1 ! q)"
    by simp
  have sl1: "s \<le> length b1" using sl l1 by simp
  note sp = sift_props [OF sl1 sl(1) order_refl e g, folded b'_def]
  have l': "length b' = length b" using sp l1 by simp
  have top: "b' ! s = b ! 0" using sp sl by (simp add: nth1)
  have rest: "drop m b' = drop m b"
  proof (rule nth_equalityI)
    show "length (drop m b') = length (drop m b)" using l' by simp
  next
    fix i assume "i < length (drop m b')"
    have "b' ! (m + i) = b1 ! (m + i)" using sp sl by simp
    also have "\<dots> = b ! (m + i)" using sl by (simp add: nth1)
    finally show "drop m b' ! i = drop m b ! i" using l' sl by simp
  qed
  have dr: "drop s b' = b ! 0 # drop m b"
    using Cons_nth_drop_Suc [of s b'] sl l' top rest by simp
  have dr1: "drop s b1 = b ! 0 # drop m b"
  proof -
    have "drop m b1 = drop m b"
    proof (rule nth_equalityI)
      show "length (drop m b1) = length (drop m b)" using l1 by simp
    next
      fix i assume "i < length (drop m b1)"
      then show "drop m b1 ! i = drop m b ! i" using l1 sl by (simp add: nth1)
    qed
    then show ?thesis using Cons_nth_drop_Suc [of s b1] sl l1 nth1 [of s] by simp
  qed
  have "mset (take s b') + mset (drop s b') = mset (take s b1) + mset (drop s b1)"
    using sp by (metis append_take_drop_id mset_append)
  then have mt: "mset (take s b') = mset (take s b1)" using dr dr1 by simp
  have root: "k (b ! j) \<le> k (b ! 0)" if "j < m" for j
    using heap that by (rule heap_root_max)
  have "take m b ! 0 = b ! 0" "0 < length (take m b)" using sl by simp_all
  then have b0: "b ! 0 \<in> set (take m b)" by (metis nth_mem)
  have sub: "set (take s b1) \<subseteq> set (take m b)"
  proof
    fix x assume "x \<in> set (take s b1)"
    then obtain q where q: "q < s" "x = b1 ! q" using l1 sl by (auto simp: in_set_conv_nth)
    then have "x = b ! (if q = 0 then s else q)" by (simp add: nth1)
    moreover have "(if q = 0 then s else q) < m" using q sl by simp
    ultimately show "x \<in> set (take m b)" using sl by (auto simp: in_set_conv_nth)
  qed
  have low: "k x \<le> k (b ! 0) \<and> (\<forall>y\<in>set (drop m b). k x \<le> k y)" if "x \<in> set (take s b')" for x
  proof -
    have "x \<in> set (take s b1)" using that mt by (metis set_mset_mset)
    then have xm: "x \<in> set (take m b)" using sub by blast
    then obtain q where "q < m" "x = b ! q" using sl by (auto simp: in_set_conv_nth)
    then show ?thesis using root xm sep by blast
  qed
  have "sorted (map k (drop s b'))" using dr srt sep b0 by simp
  moreover have "\<forall>x\<in>set (take s b'). \<forall>y\<in>set (drop s b'). k x \<le> k y"
    using low dr by simp
  ultimately show ?thesis
    unfolding pm s_def [symmetric] using sp l' len m1 by simp
qed

lemma heapsort_props:
  "sorted (map k (heapsort k a)) \<and> mset (heapsort k a) = mset a"
proof -
  define n where "n = length a"
  have loop: "mset (foldl (pop_max k) b (rev [2..<Suc m])) = mset b
      \<and> sorted (map k (foldl (pop_max k) b (rev [2..<Suc m])))"
    if "length b = n" "m \<le> n" "\<forall>p. heap_at k b m p" "sorted (map k (drop m b))"
      "\<forall>x\<in>set (take m b). \<forall>y\<in>set (drop m b). k x \<le> k y" for b m
    using that
  proof (induction m arbitrary: b)
    case 0
    then show ?case by simp
  next
    case (Suc m)
    show ?case
    proof (cases "m = 0")
      case True
      have "sorted (map k (take 1 b @ drop 1 b))"
        unfolding map_append sorted_append using Suc.prems(4,5) True
        by (auto simp: sorted01)
      then show ?thesis using True by simp
    next
      case False
      then have m2: "2 \<le> Suc m" by simp
      note pp = pop_max_props [OF Suc.prems(1) m2 Suc.prems(2,3,4,5)]
      have e: "rev [2..<Suc (Suc m)] = Suc m # rev [2..<Suc m]" using False by simp
      have "length (pop_max k b (Suc m)) = n" "m \<le> n" using pp Suc.prems(2) by simp_all
      moreover have "\<forall>p. heap_at k (pop_max k b (Suc m)) m p" using pp by simp
      moreover have "sorted (map k (drop m (pop_max k b (Suc m))))" using pp by simp
      moreover have "\<forall>x\<in>set (take m (pop_max k b (Suc m))).
          \<forall>y\<in>set (drop m (pop_max k b (Suc m))). k x \<le> k y" using pp by simp
      ultimately have IH: "mset (foldl (pop_max k) (pop_max k b (Suc m)) (rev [2..<Suc m]))
            = mset (pop_max k b (Suc m))
          \<and> sorted (map k (foldl (pop_max k) (pop_max k b (Suc m)) (rev [2..<Suc m])))"
        by (rule Suc.IH)
      show ?thesis unfolding e foldl_Cons using IH pp by simp
    qed
  qed
  have hp: "length (heapify k a) = n" "n \<le> n" "\<forall>p. heap_at k (heapify k a) n p"
    using heapify_props [of k a] by (simp_all add: n_def)
  have "sorted (map k (drop n (heapify k a)))"
    "\<forall>x\<in>set (take n (heapify k a)). \<forall>y\<in>set (drop n (heapify k a)). k x \<le> k y"
    using hp(1) by simp_all
  from loop [OF hp this] heapify_props [of k a] show ?thesis
    by (simp add: heapsort_def n_def)
qed

text \<open>The whole sort.\<close>

lemma qs_props:
  "sorted (map k (qs k popped d a)) \<and> mset (qs k popped d a) = mset a"
proof (induction k popped d a rule: qs.induct)
  case (1 k popped d a)
  show ?case
  proof (cases "popped \<and> d < 0")
    case True
    then have "qs k popped d a = heapsort k a" by (subst qs.simps) simp
    then show ?thesis using heapsort_props [of k a] by simp
  next
    case nh: False
    show ?thesis
    proof (cases "17 < length a")
      case False
      then have "qs k popped d a = insertion_sort k a"
        using nh by (subst qs.simps) auto
      then show ?thesis using insertion_sort_props [of k a] by simp
    next
      case True
      obtain l p r where pa: "partition3 k a = (l, p, r)" by (metis prod_cases3)
      have l3: "3 \<le> length a" using True by simp
      note pp = partition3_props [OF l3 pa]
      define bl where "bl = (length l < length r)"
      define L where "L = qs k (\<not> bl) (d - 1) l"
      define R where "R = qs k bl (d - 1) r"
      have e: "qs k popped d a = L @ p # R"
        using nh True pa by (subst qs.simps) (auto simp: L_def R_def bl_def)
      have ih: "(sorted (map k L) \<and> mset L = mset l) \<and> (sorted (map k R) \<and> mset R = mset r)"
      proof (cases bl)
        case True
        then have c: "length l < length r" by (simp add: bl_def)
        show ?thesis
          using "1.IH"(1) [OF nh \<open>17 < length a\<close> pa [symmetric] refl c]
            "1.IH"(2) [OF nh \<open>17 < length a\<close> pa [symmetric] refl c] True
          by (simp add: L_def R_def)
      next
        case False
        then have c: "\<not> length l < length r" by (simp add: bl_def)
        show ?thesis
          using "1.IH"(3) [OF nh \<open>17 < length a\<close> pa [symmetric] refl c]
            "1.IH"(4) [OF nh \<open>17 < length a\<close> pa [symmetric] refl c] False
          by (simp add: L_def R_def)
      qed
      have sl: "set L = set l" "set R = set r" using ih by (metis set_mset_mset)+
      have "sorted (map k (L @ p # R))"
        using ih pp(2,3) sl by (auto simp: sorted_append intro: order_trans)
      moreover have "mset (L @ p # R) = mset a" using ih pp(1) by simp
      ultimately show ?thesis unfolding e by simp
    qed
  qed
qed

lemma numpy_quicksort_props:
  "sorted (map k (numpy_quicksort k a))" "mset (numpy_quicksort k a) = mset a"
  using qs_props [of k True "2 * int (msb (length a))" a] by (simp_all add: numpy_quicksort_def)

text \<open>So pandas with numpy's \<open>quicksort\<close> meets the contract assumed of pandas.\<close>

lemma pandas_numpy_ok: "pandas_ok pandas_numpy"
  unfolding pandas_ok_def pandas_numpy_def
  by (auto simp: valid_date_ns_bounds infer_iso_only_def numpy_quicksort_props
           dest: those_length)

subsection \<open>The long table of a successful load\<close>

lemma load_data_returned:
  assumes "read_table f = (ev', Some df)"
    and "load_data lib (Some f) = (ev, Inr (Some (long, wT)))"
  shows "\<exists>w dl pl. ev = ev' \<and> clean_wide df = Ok w \<and> dated_long lib w = Some dl
           \<and> priced_long dl = Inr pl \<and> long = sort_values_Tanggal lib pl
           \<and> wT = transpose_wide w"
  using assms
  by (auto simp: load_data_def transform_def split: step.splits option.splits sum.splits)



lemma read_excel: "read_table (File (Some df) x) = ([ReadExcel], Some df)"
  by (simp add: read_table_def)



lemma apply_series_int64:
  "apply_series int64 xs = Inr ys \<Longrightarrow> map with_price ys = filter (\<lambda>r. Harga r \<noteq> None) xs \<and> list_all (\<lambda>r. Harga r \<noteq> None) xs"
proof (induction xs arbitrary: ys)
  case Nil
  then show ?case by simp
next
  case (Cons x xs)
  then show ?case
    by (auto simp: int64_def with_price_def split: option.splits if_splits sum.splits)
qed

lemma priced_long_rows: "priced_long dl = Inr pl \<Longrightarrow> map with_price pl = dropna_Harga dl"
  using apply_series_int64 [of "dropna_Harga dl" pl]
  by (simp add: priced_long_def astype_int_def dropna_Harga_def)

lemma parse_dates_length:
  assumes "pandas_ok lib" "parse_dates lib col = Some ds"
  shows "length ds = length col"
  using assms
  by (auto simp: parse_dates_def to_datetime_dmY_def split: option.splits
           dest: those_length pandas_ok_length)

lemma dated_long_length:
  assumes "pandas_ok lib" "dated_long lib w = Some dl"
  shows "length dl = length (melt w)"
  using assms parse_dates_length [OF assms(1)]
  by (fastforce simp: dated_long_def Let_def set_Tanggal_def replace_spaces_def)

text \<open>
  C5. The long table of a successful load holds, with their integer prices, exactly the
  melted and dated rows whose cleaned price is not the missing marker, each as often as
  it stands there: a row without a price is in none of them, and a row of the long
  table has a price that \<open>clean_price\<close> read from a cell.
\<close>

theorem load_data_no_missing_price:
  assumes "pandas_ok lib" and "well_formed df" and "read_table f = (ev', Some df)"
    and "load_data lib (Some f) = (ev, Inr (Some (long, wT)))"
  shows "\<exists>w dl. clean_wide df = Ok w \<and> dated_long lib w = Some dl
           \<and> length dl = length (melt w)
           \<and> mset (map with_price long) = mset (filter (\<lambda>r. Harga r \<noteq> None) dl)"
proof -
  obtain w dl pl where w: "clean_wide df = Ok w" and dl: "dated_long lib w = Some dl"
    and pl: "priced_long dl = Inr pl" and long: "long = sort_values_Tanggal lib pl"
    using load_data_returned [OF assms(3,4)] by blast
  have "mset (map with_price long) = image_mset with_price (mset long)" by simp
  also have "\<dots> = image_mset with_price (mset pl)"
    unfolding long pandas_ok_mset [OF assms(1)] ..
  also have "\<dots> = mset (map with_price pl)" by simp
  also have "\<dots> = mset (filter (\<lambda>r. Harga r \<noteq> None) dl)"
    using priced_long_rows [OF pl] by (simp add: dropna_Harga_def)
  finally show ?thesis using w dl dated_long_length [OF assms(1) dl] by blast
qed

theorem load_data_no_missing_price_witness:
  "pandas_ok pandas_stable \<and> well_formed jakarta_table
   \<and> read_table (File (Some jakarta_table) None) = ([ReadExcel], Some jakarta_table)
   \<and> load_data pandas_stable (Some (File (Some jakarta_table) None)) =
       ([ReadExcel],
        Inr (Some ([\<lparr>Provinsi = CStr ''Jakarta'', Tanggal = (2024, 1, 1), Harga = 12500\<rparr>],
                   \<lparr>t_index = [''01/01/2024'', ''02/01/2024''],
                    t_columns = [CStr ''Jakarta''],
                    t_rows = [[Some 12500], [None]]\<rparr>)))
   \<and> (\<exists>w dl. clean_wide jakarta_table = Ok w \<and> dated_long pandas_stable w = Some dl
           \<and> length dl = length (melt w)
           \<and> mset (map with_price
                  [\<lparr>Provinsi = CStr ''Jakarta'', Tanggal = (2024, 1, 1), Harga = 12500\<rparr>])
               = mset (filter (\<lambda>r. Harga r \<noteq> None) dl))"
proof -
  have wf: "well_formed jakarta_table" by code_simp
  have ld: "load_data pandas_stable (Some (File (Some jakarta_table) None)) =
       ([ReadExcel],
        Inr (Some ([\<lparr>Provinsi = CStr ''Jakarta'', Tanggal = (2024, 1, 1), Harga = 12500\<rparr>],
                   \<lparr>t_index = [''01/01/2024'', ''02/01/2024''],
                    t_columns = [CStr ''Jakarta''],
                    t_rows = [[Some 12500], [None]]\<rparr>)))" by code_simp
  show ?thesis
    using load_data_no_missing_price [OF pandas_stable_ok wf read_excel ld]
      wf pandas_stable_ok ld read_excel
    by simp
qed

subsection \<open>Melting and re-pivoting\<close>

lemma remdups_subset_append: "set ys \<subseteq> set zs \<Longrightarrow> remdups (ys @ zs) = remdups zs"
  by (induction ys) auto

lemma remdups_repeat:
  "distinct ys \<Longrightarrow> 0 < n \<Longrightarrow> remdups (concat (replicate n ys)) = ys"
proof (induction n)
  case 0
  then show ?case by simp
next
  case (Suc n)
  show ?case
  proof (cases "n = 0")
    case True
    then show ?thesis using Suc.prems by (simp add: distinct_remdups_id)
  next
    case False
    then have "set ys \<subseteq> set (concat (replicate n ys))" by auto
    then show ?thesis using Suc False by (simp add: remdups_subset_append)
  qed
qed

lemma firsts_repeat:
  assumes "distinct ys" "0 < n"
  shows "firsts (concat (replicate n ys)) = ys"
proof -
  have "rev (concat (replicate n ys)) = concat (replicate n (rev ys))"
    by (simp add: rev_concat rev_replicate)
  then show ?thesis using remdups_repeat [of "rev ys" n] assms by (simp add: firsts_def)
qed

lemma remdups_block_fresh:
  "x \<notin> set zs \<Longrightarrow> 0 < n \<Longrightarrow> remdups (replicate n x @ zs) = x # remdups zs"
  by (induction n) auto

lemma remdups_blocks:
  "distinct ys \<Longrightarrow> 0 < n \<Longrightarrow> remdups (concat (map (replicate n) ys)) = ys"
proof (induction ys)
  case Nil
  then show ?case by simp
next
  case (Cons y ys)
  have "y \<notin> set (concat (map (replicate n) ys))" using Cons.prems by auto
  then show ?case using Cons by (simp add: remdups_block_fresh)
qed

lemma firsts_blocks:
  assumes "distinct ys" "0 < n"
  shows "firsts (concat (map (replicate n) ys)) = ys"
proof -
  have "rev (concat (map (replicate n) ys)) = concat (map (replicate n) (rev ys))"
    by (induction ys) simp_all
  then show ?thesis using remdups_blocks [of "rev ys" n] assms by (simp add: firsts_def)
qed

lemma melt_Cons:
  "melt \<lparr>index = idx, cols = (l, c) # cs\<rparr> =
     map (\<lambda>(r, p). \<lparr>Provinsi = r, Tanggal = l, Harga = p\<rparr>) (zip idx c)
     @ melt \<lparr>index = idx, cols = cs\<rparr>"
  by (simp add: melt_def)

lemma melt_Nil: "melt \<lparr>index = idx, cols = []\<rparr> = []"
  by (simp add: melt_def)

lemma block_Provinsi:
  "length c = length idx \<Longrightarrow>
     map (Provinsi \<circ> (\<lambda>(r, p). \<lparr>Provinsi = r, Tanggal = l, Harga = p\<rparr>)) (zip idx c) = idx"
  by (induction idx c rule: list_induct2') simp_all

lemma block_Tanggal:
  "length c = length idx \<Longrightarrow>
     map (Tanggal \<circ> (\<lambda>(r, p). \<lparr>Provinsi = r, Tanggal = l, Harga = p\<rparr>)) (zip idx c)
       = replicate (length idx) l"
  by (induction idx c rule: list_induct2') simp_all

lemma melt_Provinsi:
  "list_all (\<lambda>c. length c = length idx) (map snd cs) \<Longrightarrow>
     map Provinsi (melt \<lparr>index = idx, cols = cs\<rparr>) = concat (replicate (length cs) idx)"
  by (induction cs) (auto simp: melt_Nil melt_Cons block_Provinsi)

lemma melt_Tanggal:
  "list_all (\<lambda>c. length c = length idx) (map snd cs) \<Longrightarrow>
     map Tanggal (melt \<lparr>index = idx, cols = cs\<rparr>)
       = concat (map (replicate (length idx)) (map fst cs))"
  by (induction cs) (auto simp: melt_Nil melt_Cons block_Tanggal)

lemma melt_length:
  "list_all (\<lambda>c. length c = length idx) (map snd cs) \<Longrightarrow>
     length (melt \<lparr>index = idx, cols = cs\<rparr>) = length idx * length cs"
  by (induction cs) (auto simp: melt_Nil melt_Cons)

lemma map_of_block:
  "map_of (map ((\<lambda>x. ((Tanggal x, Provinsi x), Harga x))
                  \<circ> (\<lambda>(r, p). \<lparr>Provinsi = r, Tanggal = l0, Harga = p\<rparr>)) xs) (l, r)
     = (if l = l0 then map_of xs r else None)"
  by (induction xs) auto

lemma price_at_Cons:
  "price_at (melt \<lparr>index = idx, cols = (l0, c) # cs\<rparr>) l r =
     (if l = l0 then (case map_of (zip idx c) r of
                        None \<Rightarrow> price_at (melt \<lparr>index = idx, cols = cs\<rparr>) l r
                      | Some p \<Rightarrow> p)
      else price_at (melt \<lparr>index = idx, cols = cs\<rparr>) l r)"
  by (simp add: price_at_def melt_Cons map_add_def map_of_block split: option.splits)

lemma column_back:
  assumes "distinct idx" "length c = length idx"
  shows "map (\<lambda>r. case map_of (zip idx c) r of None \<Rightarrow> d r | Some p \<Rightarrow> p) idx = c"
proof (rule nth_equalityI)
  show "length (map (\<lambda>r. case map_of (zip idx c) r of None \<Rightarrow> d r | Some p \<Rightarrow> p) idx) = length c"
    using assms by simp
next
  fix i assume "i < length (map (\<lambda>r. case map_of (zip idx c) r of None \<Rightarrow> d r | Some p \<Rightarrow> p) idx)"
  then have i: "i < length idx" by simp
  then have "map_of (zip idx c) (idx ! i) = Some (c ! i)"
    using assms by (simp add: map_of_zip_nth)
  then show "map (\<lambda>r. case map_of (zip idx c) r of None \<Rightarrow> d r | Some p \<Rightarrow> p) idx ! i = c ! i"
    using i by simp
qed

lemma pivot_columns:
  assumes "distinct idx"
  shows "distinct (map fst cs) \<Longrightarrow> list_all (\<lambda>c. length c = length idx) (map snd cs) \<Longrightarrow>
     map (\<lambda>l. (l, map (price_at (melt \<lparr>index = idx, cols = cs\<rparr>) l) idx)) (map fst cs) = cs"
proof (induction cs)
  case Nil
  then show ?case by simp
next
  case (Cons a cs)
  obtain l0 c where a: "a = (l0, c)" by (cases a)
  have len: "length c = length idx" using Cons.prems(2) a by simp
  have "map (price_at (melt \<lparr>index = idx, cols = (l0, c) # cs\<rparr>) l0) idx
        = map (\<lambda>r. case map_of (zip idx c) r of
                       None \<Rightarrow> price_at (melt \<lparr>index = idx, cols = cs\<rparr>) l0 r
                     | Some p \<Rightarrow> p) idx"
    by (rule map_cong [OF refl]) (simp add: price_at_Cons)
  also have "\<dots> = c" by (rule column_back [OF assms len])
  finally have hd: "map (price_at (melt \<lparr>index = idx, cols = (l0, c) # cs\<rparr>) l0) idx = c" .
  have other: "price_at (melt \<lparr>index = idx, cols = (l0, c) # cs\<rparr>) l
                 = price_at (melt \<lparr>index = idx, cols = cs\<rparr>) l" if "l \<noteq> l0" for l
    using that by (intro ext) (simp add: price_at_Cons)
  have tl: "map (\<lambda>l. (l, map (price_at (melt \<lparr>index = idx, cols = (l0, c) # cs\<rparr>) l) idx)) (map fst cs)
          = map (\<lambda>l. (l, map (price_at (melt \<lparr>index = idx, cols = cs\<rparr>) l) idx)) (map fst cs)"
  proof (rule map_cong [OF refl])
    fix l assume "l \<in> set (map fst cs)"
    then have "l \<noteq> l0" using Cons.prems(1) a by auto
    then show "(l, map (price_at (melt \<lparr>index = idx, cols = (l0, c) # cs\<rparr>) l) idx)
             = (l, map (price_at (melt \<lparr>index = idx, cols = cs\<rparr>) l) idx)"
      by (simp add: other)
  qed
  show ?case using Cons a hd tl by simp
qed

text \<open>
  C6, as the code has it. For a cleaned wide table with at least one region and at least
  one date column, the regions distinct and the column labels distinct, \<open>melt\<close> gives
  one row per region and date column, R times D rows, and re-pivoting them gives the
  table back. (The count holds without the two lower bounds; neither part needs the
  cells to be present.)
\<close>

theorem melt_pivot_roundtrip:
  assumes "rectangular w" and "distinct (index w)" and "distinct (labels (cols w))"
    and "index w \<noteq> []" and "cols w \<noteq> []"
  shows "length (melt w) = length (index w) * length (cols w) \<and> pivot (melt w) = w"
proof -
  obtain idx cs where w: "w = \<lparr>index = idx, cols = cs\<rparr>" by (cases w) simp
  have rect: "list_all (\<lambda>c. length c = length idx) (map snd cs)"
    using assms(1) w by (simp add: rectangular_def)
  have d: "distinct idx" "distinct (map fst cs)" "0 < length idx" "0 < length cs"
    using assms(2-5) w by (simp_all add: labels_def)
  have i: "firsts (map Provinsi (melt w)) = idx"
    unfolding w melt_Provinsi [OF rect] by (rule firsts_repeat [OF d(1) d(4)])
  have t: "firsts (map Tanggal (melt w)) = map fst cs"
    unfolding w melt_Tanggal [OF rect] by (rule firsts_blocks [OF d(2) d(3)])
  have c: "map (\<lambda>l. (l, map (price_at (melt w) l) idx)) (map fst cs) = cs"
    unfolding w by (rule pivot_columns [OF d(1) d(2) rect])
  have "pivot (melt w) = w" unfolding pivot_def i t c by (simp add: w)
  moreover have "length (melt w) = length (index w) * length (cols w)"
    unfolding w using melt_length [OF rect] by simp
  ultimately show ?thesis by simp
qed

theorem melt_pivot_roundtrip_witness:
  "rectangular prices_2x2 \<and> no_missing prices_2x2 \<and> distinct (index prices_2x2)
   \<and> distinct (labels (cols prices_2x2))
   \<and> index prices_2x2 \<noteq> [] \<and> cols prices_2x2 \<noteq> []
   \<and> length (melt prices_2x2) = 2 * 2 \<and> pivot (melt prices_2x2) = prices_2x2"
proof -
  have a: "rectangular prices_2x2" by code_simp
  have b: "distinct (index prices_2x2)" by code_simp
  have c: "distinct (labels (cols prices_2x2))" by code_simp
  have d: "index prices_2x2 \<noteq> []" by (simp add: prices_2x2_def)
  have e: "cols prices_2x2 \<noteq> []" by (simp add: prices_2x2_def)
  have n: "no_missing prices_2x2" by code_simp
  have l: "length (index prices_2x2) * length (cols prices_2x2) = 2 * 2"
    by (simp add: prices_2x2_def)
  show ?thesis using melt_pivot_roundtrip [OF a b c d e] a b c d e n l by simp
qed

text \<open>
  The claim as stated fails for a table with no region: the table of a file that has
  the header \<open>01/01/2024\<close> and no row melts to the empty long table, and so does the
  table with the header \<open>02/01/2024\<close>; no re-pivot gives both back, and the one of
  this development gives the table without columns.
\<close>

theorem melt_pivot_header_only_counterexample:
  "rectangular header_only_1 \<and> no_missing header_only_1
   \<and> distinct (index header_only_1) \<and> distinct (labels (cols header_only_1))
   \<and> length (index header_only_1) = 0 \<and> length (cols header_only_1) = 1
   \<and> melt header_only_1 = []
   \<and> pivot (melt header_only_1) \<noteq> header_only_1
   \<and> melt header_only_2 = melt header_only_1
   \<and> header_only_2 \<noteq> header_only_1"
  by (simp add: header_only_1_def header_only_2_def rectangular_def no_missing_def
        labels_def melt_def pivot_def firsts_def)

subsection \<open>Date parsing and its fallback\<close>

lemma sort_values_distinct:
  assumes "pandas_ok lib" and "distinct (map Tanggal xs)"
  shows "sort_values_Tanggal lib xs = sort_key Tanggal xs"
proof (rule map_sorted_distinct_set_unique [where f = Tanggal])
  let ?ys = "sort_values_Tanggal lib xs"
  have m: "mset ?ys = mset xs" by (rule pandas_ok_mset [OF assms(1)])
  then have s: "set ?ys = set xs" by (rule mset_eq_setD)
  show "inj_on Tanggal (set ?ys \<union> set (sort_key Tanggal xs))"
    using assms(2) s by (simp add: distinct_map)
  show "sorted (map Tanggal ?ys)" by (rule pandas_ok_sorted [OF assms(1)])
  have "mset (map Tanggal ?ys) = mset (map Tanggal xs)" using m by (metis mset_map)
  then show "distinct (map Tanggal ?ys)" using assms(2) by (metis mset_eq_imp_distinct_iff)
  show "sorted (map Tanggal (sort_key Tanggal xs))" by (rule sorted_sort_key)
  have "mset (map Tanggal (sort_key Tanggal xs)) = mset (map Tanggal xs)" by simp
  then show "distinct (map Tanggal (sort_key Tanggal xs))"
    using assms(2) by (metis mset_eq_imp_distinct_iff)
  show "set ?ys = set (sort_key Tanggal xs)" using s by simp
qed

lemma dated_long_None:
  "dated_long lib w = None \<longleftrightarrow> parse_dates lib (date_column w) = None"
  by (simp add: dated_long_def date_column_def Let_def)

lemma parse_dates_None:
  "parse_dates lib col = None
     \<longleftrightarrow> to_datetime_dmY lib col = None \<and> to_datetime_infer lib col = None"
  by (auto simp: parse_dates_def split: option.splits)

lemma load_data_date_failure:
  assumes "read_table f = (ev, Some df)" and "clean_wide df = Ok w"
  shows "load_data lib (Some f) = (ev @ [StError MsgDateFormat], Inr None)
           \<longleftrightarrow> to_datetime_dmY lib (date_column w) = None
               \<and> to_datetime_infer lib (date_column w) = None"
proof -
  have "load_data lib (Some f) = (ev @ [StError MsgDateFormat], Inr None)
          \<longleftrightarrow> dated_long lib w = None"
    using assms
    by (auto simp: load_data_def transform_def split: option.splits sum.splits)
  then show ?thesis by (simp add: dated_long_None parse_dates_None)
qed

lemma clean_wide_iso:
  "clean_wide iso_table =
     Ok \<lparr>index = [CStr ''Jakarta''],
         cols = [(''2024-01-01'', [Some 12500]), (''2024-01-02'', [Some 13000])]\<rparr>"
  by code_simp

lemma date_column_iso:
  "date_column \<lparr>index = [CStr ''Jakarta''],
         cols = [(''2024-01-01'', [Some (12500::int)]), (''2024-01-02'', [Some 13000])]\<rparr>
     = [''2024-01-01'', ''2024-01-02'']"
  by code_simp

lemma primary_fails_on_iso:
  "to_datetime_dmY lib [''2024-01-01'', ''2024-01-02''] = None"
proof -
  have "strptime_dmY ''2024-01-01'' = None" by code_simp
  then show ?thesis by (simp add: to_datetime_dmY_def)
qed

lemma infer_iso_column:
  assumes "pandas_ok lib" and "infers_iso lib"
  shows "to_datetime_infer lib [''2024-01-01'', ''2024-01-02''] = Some [(2024, 1, 1), (2024, 1, 2)]"
proof -
  have p1: "iso_date ''2024-01-01'' = Some (2024, 1, 1)" by code_simp
  have p2: "iso_date ''2024-01-02'' = Some (2024, 1, 2)" by code_simp
  have v1: "valid_date (2024, 1, 1)" by code_simp
  have v2: "valid_date (2024, 1, 2)" by code_simp
  have b1: "timestamp_in_bounds lib (2024, 1, 1)"
    using pandas_ok_bounds [OF assms(1) _ _ v1] by simp
  have b2: "timestamp_in_bounds lib (2024, 1, 2)"
    using pandas_ok_bounds [OF assms(1) _ _ v2] by simp
  have "list_all (\<lambda>s. case iso_date s of None \<Rightarrow> False | Some d \<Rightarrow> timestamp_in_bounds lib d)
          [''2024-01-01'', ''2024-01-02'']"
    by (simp add: p1 p2 b1 b2)
  then have "to_datetime_infer lib [''2024-01-01'', ''2024-01-02'']
               = those (map iso_date [''2024-01-01'', ''2024-01-02''])"
    using assms(2) unfolding infers_iso_def by blast
  then show ?thesis by (simp add: p1 p2)
qed

lemma load_data_iso:
  assumes "pandas_ok lib" and "infers_iso lib" and "read_table f = (ev, Some iso_table)"
  shows "load_data lib (Some f) =
           (ev, Inr (Some ([\<lparr>Provinsi = CStr ''Jakarta'', Tanggal = (2024, 1, 1), Harga = 12500\<rparr>,
                            \<lparr>Provinsi = CStr ''Jakarta'', Tanggal = (2024, 1, 2), Harga = 13000\<rparr>],
                           \<lparr>t_index = [''2024-01-01'', ''2024-01-02''],
                            t_columns = [CStr ''Jakarta''],
                            t_rows = [[Some 12500], [Some 13000]]\<rparr>)))"
proof -
  let ?w = "\<lparr>index = [CStr ''Jakarta''],
         cols = [(''2024-01-01'', [Some (12500::int)]), (''2024-01-02'', [Some 13000])]\<rparr>"
  let ?pl = "[\<lparr>Provinsi = CStr ''Jakarta'', Tanggal = (2024, 1, 1) :: date, Harga = 12500 :: int\<rparr>,
              \<lparr>Provinsi = CStr ''Jakarta'', Tanggal = (2024, 1, 2), Harga = 13000\<rparr>]"
  have pd: "parse_dates lib [''2024-01-01'', ''2024-01-02''] = Some [(2024, 1, 1), (2024, 1, 2)]"
    by (simp add: parse_dates_def primary_fails_on_iso infer_iso_column [OF assms(1,2)])
  have d: "dated_long lib ?w =
      Some [\<lparr>Provinsi = CStr ''Jakarta'', Tanggal = (2024, 1, 1), Harga = Some 12500\<rparr>,
            \<lparr>Provinsi = CStr ''Jakarta'', Tanggal = (2024, 1, 2), Harga = Some 13000\<rparr>]"
    unfolding dated_long_def Let_def date_column_iso [unfolded date_column_def] pd
    by (simp add: set_Tanggal_def replace_spaces_def melt_def)
  have p: "priced_long
        [\<lparr>Provinsi = CStr ''Jakarta'', Tanggal = (2024, 1, 1) :: date, Harga = Some 12500\<rparr>,
         \<lparr>Provinsi = CStr ''Jakarta'', Tanggal = (2024, 1, 2), Harga = Some 13000\<rparr>]
        = Inr ?pl"
    by (simp add: priced_long_def dropna_Harga_def astype_int_def int64_def)
  have "distinct (map Tanggal ?pl)" by simp
  then have "sort_values_Tanggal lib ?pl = sort_key Tanggal ?pl"
    by (rule sort_values_distinct [OF assms(1)])
  also have "\<dots> = ?pl" by code_simp
  finally have s: "sort_values_Tanggal lib ?pl = ?pl" .
  have t: "transpose_wide ?w = \<lparr>t_index = [''2024-01-01'', ''2024-01-02''],
                            t_columns = [CStr ''Jakarta''],
                            t_rows = [[Some 12500], [Some 13000]]\<rparr>"
    by (simp add: transpose_wide_def labels_def)
  show ?thesis
    by (simp add: load_data_def assms(3) transform_def clean_wide_iso d p t s)
qed

text \<open>
  C7. The dates are first read under the day/month/year format, and when every value of
  the column reads, those dates are taken. When a value does not read, the whole column
  is read again by inference, and its result is taken. \<open>load_data\<close> ends with the
  date-format report exactly when both readings fail, and then it returns None, no
  table. The ISO headers \<open>2024-01-01\<close> and \<open>2024-01-02\<close> do not read under the
  primary format, and with an inference that reads ISO dates the load succeeds with the
  two dates.
\<close>

theorem date_parsing_fallback:
  assumes "pandas_ok lib" and "infers_iso lib"
  shows "(to_datetime_dmY lib col = Some ds \<longrightarrow> parse_dates lib col = Some ds)
     \<and> (to_datetime_dmY lib col = None \<longrightarrow> parse_dates lib col = to_datetime_infer lib col)
     \<and> (well_formed df \<and> read_table f = (ev, Some df) \<and> clean_wide df = Ok w \<longrightarrow>
          (load_data lib (Some f) = (ev @ [StError MsgDateFormat], Inr None)
             \<longleftrightarrow> to_datetime_dmY lib (date_column w) = None
                 \<and> to_datetime_infer lib (date_column w) = None))
     \<and> to_datetime_dmY lib [''2024-01-01'', ''2024-01-02''] = None
     \<and> (read_table f' = (ev', Some iso_table) \<longrightarrow>
          load_data lib (Some f') =
           (ev', Inr (Some ([\<lparr>Provinsi = CStr ''Jakarta'', Tanggal = (2024, 1, 1), Harga = 12500\<rparr>,
                             \<lparr>Provinsi = CStr ''Jakarta'', Tanggal = (2024, 1, 2), Harga = 13000\<rparr>],
                            \<lparr>t_index = [''2024-01-01'', ''2024-01-02''],
                             t_columns = [CStr ''Jakarta''],
                             t_rows = [[Some 12500], [Some 13000]]\<rparr>))))"
proof (intro conjI impI)
  show "parse_dates lib col = Some ds" if "to_datetime_dmY lib col = Some ds"
    using that by (simp add: parse_dates_def)
  show "parse_dates lib col = to_datetime_infer lib col" if "to_datetime_dmY lib col = None"
    using that by (simp add: parse_dates_def)
  show "load_data lib (Some f) = (ev @ [StError MsgDateFormat], Inr None)
             \<longleftrightarrow> to_datetime_dmY lib (date_column w) = None
                 \<and> to_datetime_infer lib (date_column w) = None"
    if "well_formed df \<and> read_table f = (ev, Some df) \<and> clean_wide df = Ok w"
    using that load_data_date_failure by blast
  show "to_datetime_dmY lib [''2024-01-01'', ''2024-01-02''] = None"
    by (rule primary_fails_on_iso)
  show "load_data lib (Some f') =
           (ev', Inr (Some ([\<lparr>Provinsi = CStr ''Jakarta'', Tanggal = (2024, 1, 1), Harga = 12500\<rparr>,
                             \<lparr>Provinsi = CStr ''Jakarta'', Tanggal = (2024, 1, 2), Harga = 13000\<rparr>],
                            \<lparr>t_index = [''2024-01-01'', ''2024-01-02''],
                             t_columns = [CStr ''Jakarta''],
                             t_rows = [[Some 12500], [Some 13000]]\<rparr>)))"
    if "read_table f' = (ev', Some iso_table)"
    using that by (rule load_data_iso [OF assms])
qed

theorem date_parsing_fallback_witness:
  "pandas_ok pandas_stable \<and> infers_iso pandas_stable
   \<and> to_datetime_dmY pandas_stable [''01/01/2024''] = Some [(2024, 1, 1)]
   \<and> parse_dates pandas_stable [''01/01/2024''] = Some [(2024, 1, 1)]
   \<and> well_formed unparseable_table
   \<and> read_table (File None (Some unparseable_table))
        = ([ReadExcel, Seek0, ReadCsv], Some unparseable_table)
   \<and> clean_wide unparseable_table
        = Ok \<lparr>index = [CStr ''Jakarta''], cols = [(''Januari'', [Some 12500])]\<rparr>
   \<and> to_datetime_dmY pandas_stable [''Januari''] = None
   \<and> to_datetime_infer pandas_stable [''Januari''] = None
   \<and> load_data pandas_stable (Some (File None (Some unparseable_table)))
        = ([ReadExcel, Seek0, ReadCsv, StError MsgDateFormat], Inr None)
   \<and> read_table (File (Some iso_table) None) = ([ReadExcel], Some iso_table)
   \<and> load_data pandas_stable (Some (File (Some iso_table) None)) =
        ([ReadExcel],
         Inr (Some ([\<lparr>Provinsi = CStr ''Jakarta'', Tanggal = (2024, 1, 1), Harga = 12500\<rparr>,
                     \<lparr>Provinsi = CStr ''Jakarta'', Tanggal = (2024, 1, 2), Harga = 13000\<rparr>],
                    \<lparr>t_index = [''2024-01-01'', ''2024-01-02''],
                     t_columns = [CStr ''Jakarta''],
                     t_rows = [[Some 12500], [Some 13000]]\<rparr>)))"
proof -
  let ?w = "\<lparr>index = [CStr ''Jakarta''], cols = [(''Januari'', [Some (12500::int)])]\<rparr>"
  have a: "to_datetime_dmY pandas_stable [''01/01/2024''] = Some [(2024, 1, 1)]" by code_simp
  have wf: "well_formed unparseable_table" by code_simp
  have r: "read_table (File None (Some unparseable_table))
        = ([ReadExcel, Seek0, ReadCsv], Some unparseable_table)" by (simp add: read_table_def)
  have c: "clean_wide unparseable_table = Ok ?w" by code_simp
  have dc: "date_column ?w = [''Januari'']" by code_simp
  have p: "to_datetime_dmY pandas_stable [''Januari''] = None" by code_simp
  have i: "to_datetime_infer pandas_stable [''Januari''] = None" by code_simp
  note t = date_parsing_fallback [OF pandas_stable_ok pandas_stable_iso,
      of "[''01/01/2024'']" "[(2024, 1, 1)]" unparseable_table "File None (Some unparseable_table)"
         "[ReadExcel, Seek0, ReadCsv]" ?w "File (Some iso_table) None" "[ReadExcel]"]
  show ?thesis
    using t a wf r c p i pandas_stable_ok pandas_stable_iso read_excel [of iso_table None]
    by (simp add: dc)
qed

subsection \<open>The transposed summary\<close>

lemma keep_rows_Cons:
  "keep_rows (k # ks) (x # xs) = (if k then [x] else []) @ keep_rows ks xs"
  by (simp add: keep_rows_def)

lemma keep_rows_nths:
  "keep_rows keep xs = nths xs {i. i < length keep \<and> keep ! i}"
proof (induction keep arbitrary: xs)
  case Nil
  then show ?case by (simp add: keep_rows_def)
next
  case (Cons k ks)
  show ?case
  proof (cases xs)
    case Nil
    then show ?thesis by (simp add: keep_rows_def)
  next
    case (Cons x xs')
    have "{j. Suc j \<in> {i. i < length (k # ks) \<and> (k # ks) ! i}} = {i. i < length ks \<and> ks ! i}"
      by auto
    then show ?thesis
      using Cons.IH [of xs'] Cons by (simp add: keep_rows_Cons nths_Cons)
  qed
qed

lemma nths_in_range:
  "nths xs A = nths xs {i. i < length xs \<and> i \<in> A}"
  unfolding nths_def
  by (rule arg_cong [where f = "map fst"], rule filter_cong) (auto simp: set_zip)

lemma notna_any_Cons:
  "notna_any n ((l, c) # df) = map2 (\<or>) (map (\<lambda>p. p \<noteq> None) c) (notna_any n df)"
  by (simp add: notna_any_def)

lemma notna_any_length:
  "list_all (\<lambda>c. length c = n) (map snd df) \<Longrightarrow> length (notna_any n df) = n"
  by (induction df) (auto simp: notna_any_Cons, simp add: notna_any_def)

lemma notna_any_nth:
  "list_all (\<lambda>c. length c = n) (map snd df) \<Longrightarrow> i < n \<Longrightarrow>
     notna_any n df ! i = list_ex (\<lambda>c. c ! i \<noteq> None) (map snd df)"
proof (induction df)
  case Nil
  then show ?case by (simp add: notna_any_def)
next
  case (Cons a df)
  obtain l c where a: "a = (l, c)" by (cases a)
  have len: "length (notna_any n df) = n" using Cons.prems(1) by (simp add: notna_any_length)
  show ?case using Cons a len by (simp add: notna_any_Cons)
qed

lemma dropna_all_rows:
  assumes "rectangular w"
  shows "index (dropna_all w) = nths (index w) {i. has_price w i}"
    and "cols (dropna_all w) = map (\<lambda>(l, c). (l, nths c {i. has_price w i})) (cols w)"
proof -
  let ?n = "length (index w)"
  let ?keep = "notna_any ?n (cols w)"
  have rect: "list_all (\<lambda>c. length c = ?n) (map snd (cols w))"
    using assms by (simp add: rectangular_def)
  have len: "length ?keep = ?n" by (rule notna_any_length [OF rect])
  have K: "{i. i < ?n \<and> i \<in> {i. i < length ?keep \<and> ?keep ! i}} = {i. i < ?n \<and> i \<in> {i. has_price w i}}"
    using notna_any_nth [OF rect] len by (auto simp: has_price_def)
  have sel: "keep_rows ?keep xs = nths xs {i. has_price w i}" if "length xs = ?n" for xs :: "'b list"
  proof -
    have "keep_rows ?keep xs = nths xs {i. i < length xs \<and> i \<in> {i. i < length ?keep \<and> ?keep ! i}}"
      unfolding keep_rows_nths by (rule nths_in_range)
    also have "\<dots> = nths xs {i. i < length xs \<and> i \<in> {i. has_price w i}}"
      using K that by simp
    also have "\<dots> = nths xs {i. has_price w i}" by (rule nths_in_range [symmetric])
    finally show ?thesis .
  qed
  show "index (dropna_all w) = nths (index w) {i. has_price w i}"
    by (simp add: dropna_all_def Let_def sel)
  have "map (\<lambda>(l, c). (l, keep_rows ?keep c)) (cols w)
          = map (\<lambda>(l, c). (l, nths c {i. has_price w i})) (cols w)"
  proof (rule map_cong [OF refl])
    fix a assume a: "a \<in> set (cols w)"
    obtain l c where lc: "a = (l, c)" by (cases a)
    have "length c = ?n" using rect a lc by (force simp: list_all_iff)
    then show "(case a of (l, c) \<Rightarrow> (l, keep_rows ?keep c))
                 = (case a of (l, c) \<Rightarrow> (l, nths c {i. has_price w i}))"
      using lc by (simp add: sel)
  qed
  then show "cols (dropna_all w) = map (\<lambda>(l, c). (l, nths c {i. has_price w i})) (cols w)"
    by (simp add: dropna_all_def Let_def)
qed

lemma clean_wide_sparse:
  "clean_wide sparse_table =
     Ok \<lparr>index = [CStr ''Jakarta''],
         cols = [(''01/01/2024'', [Some 12500]), (''02/01/2024'', [None])]\<rparr>"
  by code_simp

text \<open>
  C9. The transposed summary can hold missing markers. \<open>dropna(how='all')\<close> keeps
  exactly the rows that hold at least one price, with all their cells, the missing ones
  too. So for the table with Jakarta (a price on 01/01/2024, none on 02/01/2024) and
  Bali (no price at all), the load succeeds, Bali is dropped, the summary holds the
  missing cell of Jakarta on 02/01/2024, and the long table holds the one priced
  observation.
\<close>

theorem transposed_summary_keeps_missing:
  assumes "pandas_ok lib"
  shows "(rectangular w \<longrightarrow>
            index (dropna_all w) = nths (index w) {i. has_price w i}
            \<and> cols (dropna_all w) = map (\<lambda>(l, c). (l, nths c {i. has_price w i})) (cols w))
     \<and> (read_table f = (ev, Some sparse_table) \<longrightarrow>
          load_data lib (Some f) =
            (ev, Inr (Some ([\<lparr>Provinsi = CStr ''Jakarta'', Tanggal = (2024, 1, 1), Harga = 12500\<rparr>],
                            \<lparr>t_index = [''01/01/2024'', ''02/01/2024''],
                             t_columns = [CStr ''Jakarta''],
                             t_rows = [[Some 12500], [None]]\<rparr>))))"
  using dropna_all_rows [of w] transform_jakarta_wide [OF assms clean_wide_sparse]
  by (simp add: load_data_def)

theorem transposed_summary_keeps_missing_witness:
  "pandas_ok pandas_stable
   \<and> rectangular \<lparr>index = [CStr ''Jakarta'', CStr ''Bali''],
                  cols = [(''01/01/2024'', [Some (12500::int), None]),
                          (''02/01/2024'', [None, None])]\<rparr>
   \<and> dropna_all \<lparr>index = [CStr ''Jakarta'', CStr ''Bali''],
                  cols = [(''01/01/2024'', [Some 12500, None]), (''02/01/2024'', [None, None])]\<rparr>
       = \<lparr>index = [CStr ''Jakarta''],
          cols = [(''01/01/2024'', [Some 12500]), (''02/01/2024'', [None])]\<rparr>
   \<and> read_table (File (Some sparse_table) None) = ([ReadExcel], Some sparse_table)
   \<and> load_data pandas_stable (Some (File (Some sparse_table) None)) =
       ([ReadExcel],
        Inr (Some ([\<lparr>Provinsi = CStr ''Jakarta'', Tanggal = (2024, 1, 1), Harga = 12500\<rparr>],
                   \<lparr>t_index = [''01/01/2024'', ''02/01/2024''],
                    t_columns = [CStr ''Jakarta''],
                    t_rows = [[Some 12500], [None]]\<rparr>)))"
proof -
  let ?w = "\<lparr>index = [CStr ''Jakarta'', CStr ''Bali''],
                  cols = [(''01/01/2024'', [Some (12500::int), None]), (''02/01/2024'', [None, None])]\<rparr>"
  have r: "rectangular ?w" by code_simp
  have d: "dropna_all ?w = \<lparr>index = [CStr ''Jakarta''],
          cols = [(''01/01/2024'', [Some 12500]), (''02/01/2024'', [None])]\<rparr>" by code_simp
  note t = transposed_summary_keeps_missing [OF pandas_stable_ok,
      of ?w "File (Some sparse_table) None" "[ReadExcel]"]
  have ld: "load_data pandas_stable (Some (File (Some sparse_table) None)) =
       ([ReadExcel],
        Inr (Some ([\<lparr>Provinsi = CStr ''Jakarta'', Tanggal = (2024, 1, 1), Harga = 12500\<rparr>],
                   \<lparr>t_index = [''01/01/2024'', ''02/01/2024''],
                    t_columns = [CStr ''Jakarta''],
                    t_rows = [[Some 12500], [None]]\<rparr>)))"
    using t read_excel [of sparse_table None] by blast
  show ?thesis
    using r d ld pandas_stable_ok read_excel [of sparse_table None] by blast
qed

end
